theory Spec2Isabelle
  imports Main "HOL-Library.Word" "HOL-Library.Multiset"
begin

unbundle bit_operations_syntax

section \<open>The fuzz harness of the tablet (fuzz-itest.cc)\<close>

subsection \<open>Data of the harness\<close>

text \<open>
  The expected contents of one row of the key/value test table: the primary key and the
  nullable value column (\<open>boost::optional<int32_t> val\<close>). Keys and timestamps are C++
  \<open>int\<close>s that the harness only compares and uses as indices, so they are integers here;
  the value payload is kept as a 32-bit pattern, because the harness tests its lowest bit
  and passes it through both \<open>int\<close> and \<open>uint32_t\<close> parameters.
\<close>

record ExpectedKeyValueRow =
  key :: int
  val :: "32 word option"

text \<open>
  The messages that \<open>CheckRowsMatchAtTimestamp\<close> pushes on its error list, one constructor
  per format string, carrying the values substituted into it.
\<close>

datatype check_error =
    FoundUnexpectedRow ExpectedKeyValueRow
  | DidntFindExpectedValue ExpectedKeyValueRow
  | MismatchedKey ExpectedKeyValueRow ExpectedKeyValueRow
  | MismatchedValue ExpectedKeyValueRow ExpectedKeyValueRow
  | MismatchedSize nat nat
  | FoundErrorsWhileComparing int int

text \<open>
  \<open>saved_values_\<close> is a \<open>std::map<int, vector<optional<ExpectedKeyValueRow>>, std::greater<int>>\<close>:
  its entries are kept in descending key order, one entry per key. The model is the list
  of its entries in iteration order.
\<close>

type_synonym snapshot = "ExpectedKeyValueRow option list"
type_synonym saved_values = "(int \<times> snapshot) list"

text \<open>\<open>saved_values_[k] = v\<close>: replaces the entry of \<open>k\<close> or inserts it at its place.\<close>

fun map_assign :: "int \<Rightarrow> 'v \<Rightarrow> (int \<times> 'v) list \<Rightarrow> (int \<times> 'v) list" where
  "map_assign k v [] = [(k, v)]"
| "map_assign k v ((k', v') # m) =
     (if k' < k then (k, v) # (k', v') # m
      else if k' = k then (k, v) # m
      else (k', v') # map_assign k v m)"

text \<open>
  \<open>saved_values_.upper_bound(timestamp)\<close> under \<open>std::greater<int>\<close>: the first entry, in
  iteration order, whose key \<open>k\<close> satisfies \<open>timestamp > k\<close>; \<open>None\<close> is \<open>end()\<close>.
\<close>

fun upper_bound :: "int \<Rightarrow> (int \<times> 'v) list \<Rightarrow> (int \<times> 'v) option" where
  "upper_bound t [] = None"
| "upper_bound t ((k, v) # m) = (if k < t then Some (k, v) else upper_bound t m)"

subsection \<open>CheckRowsMatchAtTimestamp\<close>

text \<open>
  The loop over the saved snapshot. The state is \<open>found_idx\<close>, \<open>expected_values_counter\<close>
  and the error list; \<open>break\<close> leaves the loop with the counter already incremented,
  \<open>continue\<close> goes on with the next saved entry.
\<close>

fun match_saved :: "snapshot \<Rightarrow> ExpectedKeyValueRow list \<Rightarrow> nat \<Rightarrow> nat \<Rightarrow> check_error list
    \<Rightarrow> nat \<times> check_error list" where
  "match_saved [] rows_found found_idx counter errors = (counter, errors)"
| "match_saved (None # saved) rows_found found_idx counter errors =
     match_saved saved rows_found found_idx counter errors"
| "match_saved (Some expected_val # saved) rows_found found_idx counter errors =
     (if found_idx \<ge> length rows_found
      then (Suc counter, errors @ [DidntFindExpectedValue expected_val])
      else let found_val = rows_found ! found_idx in
        if key expected_val \<noteq> key found_val
        then match_saved saved rows_found (Suc found_idx) (Suc counter)
               (errors @ [MismatchedKey expected_val found_val])
        else if val expected_val \<noteq> val found_val
        then match_saved saved rows_found (Suc found_idx) (Suc counter)
               (errors @ [MismatchedValue expected_val found_val])
        else match_saved saved rows_found (Suc found_idx) (Suc counter) errors)"

definition CheckRowsMatchAtTimestamp ::
    "saved_values \<Rightarrow> int \<Rightarrow> ExpectedKeyValueRow list \<Rightarrow> check_error list \<Rightarrow> check_error list" where
  "CheckRowsMatchAtTimestamp saved_values timestamp rows_found errors =
     (let iter = upper_bound timestamp saved_values;
          saved_timestamp = (case iter of None \<Rightarrow> - 1 | Some (k, saved) \<Rightarrow> k);
          errors1 =
            (case iter of
               None \<Rightarrow> errors @ map FoundUnexpectedRow rows_found
             | Some (k, saved) \<Rightarrow>
                 (case match_saved saved rows_found 0 0 errors of
                    (expected_values_counter, errors') \<Rightarrow>
                      if length rows_found \<noteq> expected_values_counter
                      then errors' @ [MismatchedSize expected_values_counter (length rows_found)]
                             @ map FoundUnexpectedRow rows_found
                      else errors'))
      in if errors1 \<noteq> []
         then FoundErrorsWhileComparing timestamp saved_timestamp # errors1
         else errors1)"

text \<open>
  The snapshot the shadow model holds for a timestamp, in the words of the specification:
  among the recorded timestamps strictly less than \<open>T\<close> the greatest one selects the
  snapshot, and its non-deleted entries are the expected rows; with no such timestamp
  nothing is expected.
\<close>

definition recorded_before :: "saved_values \<Rightarrow> int \<Rightarrow> int list" where
  "recorded_before saved_values T = filter (\<lambda>k. k < T) (map fst saved_values)"

definition live_rows :: "snapshot \<Rightarrow> ExpectedKeyValueRow list" where
  "live_rows saved = concat (map (\<lambda>e. case e of None \<Rightarrow> [] | Some r \<Rightarrow> [r]) saved)"

definition shadow_rows_at :: "saved_values \<Rightarrow> int \<Rightarrow> ExpectedKeyValueRow list" where
  "shadow_rows_at saved_values T =
     (if recorded_before saved_values T = [] then []
      else (case map_of saved_values (Max (set (recorded_before saved_values T))) of
              None \<Rightarrow> [] | Some saved \<Rightarrow> live_rows saved))"

text \<open>The order invariant of the \<open>std::map\<close>: keys strictly descending.\<close>

definition descending_keys :: "(int \<times> 'v) list \<Rightarrow> bool" where
  "descending_keys m = sorted_wrt (\<lambda>a b. a > b) (map fst m)"

subsection \<open>The operations of a fuzz sequence\<close>

datatype TestOpType =
    TEST_INSERT
  | TEST_INSERT_PK_ONLY
  | TEST_UPSERT
  | TEST_UPSERT_PK_ONLY
  | TEST_UPDATE
  | TEST_DELETE
  | TEST_FLUSH_OPS
  | TEST_FLUSH_TABLET
  | TEST_FLUSH_DELTAS
  | TEST_MINOR_COMPACT_DELTAS
  | TEST_MAJOR_COMPACT_DELTAS
  | TEST_COMPACT_TABLET
  | TEST_RESTART_TS
  | TEST_SCAN_AT_TIMESTAMP

text \<open>
  \<open>struct TestOp { TestOpType type; int val; }\<close>: for a row operation \<open>val\<close> is the key, for
  \<open>TEST_SCAN_AT_TIMESTAMP\<close> the timestamp.
\<close>

datatype TestOp = TestOp (op_type: TestOpType) (op_val: int)

definition kAllOps :: "TestOpType list" where
  "kAllOps = [TEST_INSERT, TEST_INSERT_PK_ONLY, TEST_UPSERT, TEST_UPSERT_PK_ONLY,
              TEST_UPDATE, TEST_DELETE, TEST_FLUSH_OPS, TEST_FLUSH_TABLET,
              TEST_FLUSH_DELTAS, TEST_MINOR_COMPACT_DELTAS, TEST_MAJOR_COMPACT_DELTAS,
              TEST_COMPACT_TABLET, TEST_RESTART_TS, TEST_SCAN_AT_TIMESTAMP]"

definition kPkOnlyOps :: "TestOpType list" where
  "kPkOnlyOps = [TEST_INSERT_PK_ONLY, TEST_UPSERT_PK_ONLY, TEST_DELETE, TEST_FLUSH_OPS,
                 TEST_FLUSH_TABLET, TEST_FLUSH_DELTAS, TEST_MINOR_COMPACT_DELTAS,
                 TEST_MAJOR_COMPACT_DELTAS, TEST_COMPACT_TABLET, TEST_RESTART_TS,
                 TEST_SCAN_AT_TIMESTAMP]"

text \<open>
  \<open>enum TestOpSets { ALL, PK_ONLY }\<close>; \<open>ALL\<close> is written \<open>ALL_OPS\<close>, since \<open>ALL\<close> is the
  quantifier of HOL.
\<close>

datatype TestOpSets = ALL_OPS | PK_ONLY

text \<open>\<open>PickOpAtRandom\<close>, with the value that \<open>rand()\<close> returned as an argument.\<close>

definition PickOpAtRandom :: "TestOpSets \<Rightarrow> nat \<Rightarrow> TestOpType" where
  "PickOpAtRandom sets r =
     (case sets of
        ALL_OPS \<Rightarrow> kAllOps ! (r mod length kAllOps)
      | PK_ONLY \<Rightarrow> kPkOnlyOps ! (r mod length kPkOnlyOps))"

fun IsMutation :: "TestOpType \<Rightarrow> bool" where
  "IsMutation TEST_INSERT = True"
| "IsMutation TEST_INSERT_PK_ONLY = True"
| "IsMutation TEST_UPSERT = True"
| "IsMutation TEST_UPSERT_PK_ONLY = True"
| "IsMutation TEST_UPDATE = True"
| "IsMutation TEST_DELETE = True"
| "IsMutation _ = False"

subsection \<open>The write operations the harness applies to its session\<close>

text \<open>
  A \<open>KuduWriteOperation\<close> as the harness builds it: its kind, the key set in column 0, and
  what was done to column 1 of the partial row (left unset, \<open>SetNull\<close>, or \<open>SetInt32\<close>).
  The session is in \<open>MANUAL_FLUSH\<close> mode: \<open>Apply\<close> appends to its buffer. \<open>CHECK_OK\<close> aborts
  when the client library refuses a call; the model covers the runs in which it accepts
  them.
\<close>

datatype write_kind = KuduInsert | KuduUpsert | KuduUpdate | KuduDelete

datatype column_value = Unset | SetNull | SetInt32 "32 word"

record KuduWriteOperation =
  kind :: write_kind
  write_key :: int
  write_val :: column_value

type_synonym session = "KuduWriteOperation list"

datatype fatal = InvalidTestOpType TestOpType

text \<open>The value rule of \<open>InsertOrUpsertRow\<close> and \<open>MutateRow\<close>: \<open>if (val & 1)\<close>.\<close>

definition InsertOrUpsertRow ::
    "int \<Rightarrow> 32 word \<Rightarrow> ExpectedKeyValueRow option \<Rightarrow> TestOpType \<Rightarrow> session
     \<Rightarrow> fatal + (ExpectedKeyValueRow \<times> session)" where
  "InsertOrUpsertRow k v old_row type session =
     (let op_kind = (if type = TEST_INSERT \<or> type = TEST_INSERT_PK_ONLY
                     then KuduInsert else KuduUpsert);
          ret = \<lparr>key = k, val = None\<rparr>;
          with_value =
            (if v AND 1 \<noteq> 0
             then Inr (ret, session @ [\<lparr>kind = op_kind, write_key = k, write_val = SetNull\<rparr>])
             else Inr (ret\<lparr>val := Some v\<rparr>,
                       session @ [\<lparr>kind = op_kind, write_key = k, write_val = SetInt32 v\<rparr>]))
      in case type of
           TEST_INSERT \<Rightarrow> with_value
         | TEST_UPSERT \<Rightarrow> with_value
         | TEST_INSERT_PK_ONLY \<Rightarrow>
             Inr (ret, session @ [\<lparr>kind = op_kind, write_key = k, write_val = Unset\<rparr>])
         | TEST_UPSERT_PK_ONLY \<Rightarrow>
             Inr (ret\<lparr>val := (case old_row of Some r \<Rightarrow> val r | None \<Rightarrow> None)\<rparr>,
                  session @ [\<lparr>kind = op_kind, write_key = k, write_val = Unset\<rparr>])
         | _ \<Rightarrow> Inl (InvalidTestOpType type))"

definition MutateRow :: "int \<Rightarrow> 32 word \<Rightarrow> session \<Rightarrow> ExpectedKeyValueRow \<times> session" where
  "MutateRow k new_val session =
     (let ret = \<lparr>key = k, val = None\<rparr>
      in if new_val AND 1 \<noteq> 0
         then (ret, session @ [\<lparr>kind = KuduUpdate, write_key = k, write_val = SetNull\<rparr>])
         else (ret\<lparr>val := Some new_val\<rparr>,
               session @ [\<lparr>kind = KuduUpdate, write_key = k, write_val = SetInt32 new_val\<rparr>]))"

definition DeleteRow :: "int \<Rightarrow> session \<Rightarrow> ExpectedKeyValueRow option \<times> session" where
  "DeleteRow k session =
     (None, session @ [\<lparr>kind = KuduDelete, write_key = k, write_val = Unset\<rparr>])"

subsection \<open>GenerateTestCase\<close>

text \<open>
  The local variables of \<open>GenerateTestCase\<close> and the vector it fills. \<open>op_timestamps\<close> is
  an \<open>int\<close> that only grows; it is an unbounded integer here.
\<close>

record gen_state =
  exists :: "bool list"
  op_timestamps :: int
  ops_pending :: bool
  data_in_mrs :: bool
  worth_compacting :: bool
  data_in_dms :: bool
  ops :: "TestOp list"

datatype gen_error =
    DrawsExhausted
  | DivideByZero
  | LengthError

definition push_back :: "TestOp \<Rightarrow> gen_state \<Rightarrow> gen_state" where
  "push_back x st = st\<lparr>ops := ops st @ [x]\<rparr>"

text \<open>The bodies of the \<open>switch\<close>; \<open>continue\<close> leaves the state as it is.\<close>

definition gen_insert :: "TestOpType \<Rightarrow> nat \<Rightarrow> gen_state \<Rightarrow> gen_state" where
  "gen_insert r row_key st =
     (if exists st ! row_key then st
      else (push_back (TestOp r (int row_key)) st)
             \<lparr>exists := (exists st)[row_key := True], ops_pending := True,
              data_in_mrs := True\<rparr>)"

definition gen_upsert :: "TestOpType \<Rightarrow> nat \<Rightarrow> gen_state \<Rightarrow> gen_state" where
  "gen_upsert r row_key st =
     (let st1 = (push_back (TestOp r (int row_key)) st)
                  \<lparr>exists := (exists st)[row_key := True], ops_pending := True\<rparr>
      in if \<not> exists st1 ! row_key then st1\<lparr>data_in_mrs := True\<rparr>
         else if \<not> data_in_mrs st1 then st1\<lparr>data_in_dms := True\<rparr>
         else st1)"

definition gen_update :: "nat \<Rightarrow> gen_state \<Rightarrow> gen_state" where
  "gen_update row_key st =
     (if \<not> exists st ! row_key then st
      else let st1 = (push_back (TestOp TEST_UPDATE (int row_key)) st)\<lparr>ops_pending := True\<rparr>
           in if \<not> data_in_mrs st1 then st1\<lparr>data_in_dms := True\<rparr> else st1)"

definition gen_delete :: "nat \<Rightarrow> gen_state \<Rightarrow> gen_state" where
  "gen_delete row_key st =
     (if \<not> exists st ! row_key then st
      else let st1 = (push_back (TestOp TEST_DELETE (int row_key)) st)
                       \<lparr>ops_pending := True, exists := (exists st)[row_key := False]\<rparr>
           in if \<not> data_in_mrs st1 then st1\<lparr>data_in_dms := True\<rparr> else st1)"

definition gen_flush_ops :: "gen_state \<Rightarrow> gen_state" where
  "gen_flush_ops st =
     (if ops_pending st
      then (push_back (TestOp TEST_FLUSH_OPS 0) st)
             \<lparr>ops_pending := False, op_timestamps := op_timestamps st + 1\<rparr>
      else st)"

text \<open>The flush of pending operations that precedes a tablet flush or a compaction.\<close>

definition flush_pending :: "gen_state \<Rightarrow> gen_state" where
  "flush_pending st =
     (if ops_pending st
      then (push_back (TestOp TEST_FLUSH_OPS 0) st)\<lparr>ops_pending := False\<rparr>
      else st)"

definition gen_flush_tablet :: "gen_state \<Rightarrow> gen_state" where
  "gen_flush_tablet st =
     (if data_in_mrs st
      then (push_back (TestOp TEST_FLUSH_TABLET 0) (flush_pending st))
             \<lparr>data_in_mrs := False, worth_compacting := True\<rparr>
      else st)"

definition gen_compact_tablet :: "gen_state \<Rightarrow> gen_state" where
  "gen_compact_tablet st =
     (if worth_compacting st
      then (push_back (TestOp TEST_COMPACT_TABLET 0) (flush_pending st))
             \<lparr>worth_compacting := False\<rparr>
      else st)"

definition gen_flush_deltas :: "gen_state \<Rightarrow> gen_state" where
  "gen_flush_deltas st =
     (if data_in_dms st
      then (push_back (TestOp TEST_FLUSH_DELTAS 0) (flush_pending st))
             \<lparr>data_in_dms := False\<rparr>
      else st)"

text \<open>
  One iteration of the \<open>while\<close> loop. The draws of \<open>rand()\<close> are read from a list: one for
  \<open>PickOpAtRandom\<close>, one for \<open>row_key\<close>, and one more for the timestamp of a scan when
  \<open>op_timestamps > 0\<close>. \<open>rand() % FLAGS_keyspace_size\<close> with a keyspace of zero divides by
  zero.
\<close>

definition gen_body ::
    "int \<Rightarrow> TestOpSets \<Rightarrow> gen_state \<Rightarrow> nat list \<Rightarrow> gen_error + (gen_state \<times> nat list)" where
  "gen_body keyspace_size sets st rs =
     (case rs of
        r1 # r2 # rs' \<Rightarrow>
          if keyspace_size = 0 then Inl DivideByZero
          else
            let r = PickOpAtRandom sets r1;
                row_key = r2 mod nat keyspace_size;
                st1 = (if IsMutation r then st\<lparr>op_timestamps := op_timestamps st + 1\<rparr>
                       else st)
            in (case r of
                  TEST_INSERT \<Rightarrow> Inr (gen_insert r row_key st1, rs')
                | TEST_INSERT_PK_ONLY \<Rightarrow> Inr (gen_insert r row_key st1, rs')
                | TEST_UPSERT \<Rightarrow> Inr (gen_upsert r row_key st1, rs')
                | TEST_UPSERT_PK_ONLY \<Rightarrow> Inr (gen_upsert r row_key st1, rs')
                | TEST_UPDATE \<Rightarrow> Inr (gen_update row_key st1, rs')
                | TEST_DELETE \<Rightarrow> Inr (gen_delete row_key st1, rs')
                | TEST_FLUSH_OPS \<Rightarrow> Inr (gen_flush_ops st1, rs')
                | TEST_FLUSH_TABLET \<Rightarrow> Inr (gen_flush_tablet st1, rs')
                | TEST_COMPACT_TABLET \<Rightarrow> Inr (gen_compact_tablet st1, rs')
                | TEST_FLUSH_DELTAS \<Rightarrow> Inr (gen_flush_deltas st1, rs')
                | TEST_MAJOR_COMPACT_DELTAS \<Rightarrow>
                    Inr (push_back (TestOp TEST_MAJOR_COMPACT_DELTAS 0) st1, rs')
                | TEST_MINOR_COMPACT_DELTAS \<Rightarrow>
                    Inr (push_back (TestOp TEST_MINOR_COMPACT_DELTAS 0) st1, rs')
                | TEST_RESTART_TS \<Rightarrow> Inr (push_back (TestOp TEST_RESTART_TS 0) st1, rs')
                | TEST_SCAN_AT_TIMESTAMP \<Rightarrow>
                    if op_timestamps st1 > 0
                    then (case rs' of
                            r3 # rs'' \<Rightarrow>
                              Inr (push_back (TestOp TEST_SCAN_AT_TIMESTAMP
                                               (int r3 mod op_timestamps st1 + 1)) st1, rs'')
                          | [] \<Rightarrow> Inl DrawsExhausted)
                    else Inr (push_back (TestOp TEST_SCAN_AT_TIMESTAMP 1) st1, rs'))
      | _ \<Rightarrow> Inl DrawsExhausted)"

text \<open>
  \<open>ops->size() < len\<close> compares a \<open>size_t\<close> with an \<open>int\<close>: the 32-bit \<open>int\<close> is
  converted to \<open>size_t\<close> (64 bits), a negative one to a value above $2^{63}$. The
  conversion matters here, so \<open>len\<close> is a 32-bit word read as a signed number.
\<close>

definition size_t_of_int :: "32 word \<Rightarrow> nat" where
  "size_t_of_int n = nat (sint n mod 2 ^ 64)"

text \<open>
  The largest size of a \<open>std::vector<TestOp>\<close> (8-byte elements, 64-bit \<open>ptrdiff_t\<close>);
  \<open>push_back\<close> beyond it throws \<open>std::length_error\<close>. An iteration pushes at most twice,
  and the model looks at the size once the iteration is over.
\<close>

definition vector_max_size :: nat where
  "vector_max_size = 2 ^ 60 - 1"

lemma gen_body_shorter:
  "gen_body keyspace_size sets st rs = Inr (st', rs') \<Longrightarrow> length rs' < length rs"
  by (auto simp: gen_body_def Let_def split: list.splits if_splits TestOpType.splits)

function gen_loop ::
    "int \<Rightarrow> 32 word \<Rightarrow> TestOpSets \<Rightarrow> gen_state \<Rightarrow> nat list \<Rightarrow> gen_error + TestOp list" where
  "gen_loop keyspace_size len sets st rs =
     (if \<not> length (ops st) < size_t_of_int len then Inr (ops st)
      else (case gen_body keyspace_size sets st rs of
              Inl e \<Rightarrow> Inl e
            | Inr (st', rs') \<Rightarrow>
                if length (ops st') > vector_max_size then Inl LengthError
                else gen_loop keyspace_size len sets st' rs'))"
  by pat_completeness auto
termination
  by (relation "measure (\<lambda>(keyspace_size, len, sets, st, rs). length rs)")
     (auto dest: gen_body_shorter)

text \<open>
  \<open>GenerateTestCase(ops, len, sets)\<close> with \<open>FLAGS_keyspace_size\<close> and the draws of \<open>rand()\<close>
  as arguments; \<open>ops0\<close> is the content of the vector passed in, which is cleared. A
  negative keyspace size makes the constructor of \<open>exists\<close> throw.
\<close>

definition GenerateTestCase ::
    "int \<Rightarrow> TestOp list \<Rightarrow> 32 word \<Rightarrow> TestOpSets \<Rightarrow> nat list
     \<Rightarrow> gen_error + TestOp list" where
  "GenerateTestCase keyspace_size ops0 len sets rs =
     (if keyspace_size < 0 then Inl LengthError
      else gen_loop keyspace_size len sets
             \<lparr>exists = replicate (nat keyspace_size) False, op_timestamps = 0,
              ops_pending = False, data_in_mrs = False, worth_compacting = False,
              data_in_dms = False, ops = []\<rparr> rs)"

subsection \<open>ValidateFuzzCase\<close>

text \<open>
  The \<open>CHECK\<close>s of \<open>ValidateFuzzCase\<close>, the read of \<open>exists[test_op.val]\<close> outside the
  vector, which the C++ leaves undefined and the model reports, and the constructor of
  \<open>exists\<close>, which throws for a negative keyspace size.
\<close>

datatype validate_error =
    InsertingExistingRow
  | UpdatingNonExistingRow
  | DeletingNonExistingRow
  | IndexOutOfRange
  | VectorLengthError

definition validate_op :: "bool list \<Rightarrow> TestOp \<Rightarrow> validate_error + bool list" where
  "validate_op ex test_op =
     (let v = op_val test_op; i = nat v;
          in_range = (0 \<le> v \<and> i < length ex)
      in case op_type test_op of
           TEST_INSERT \<Rightarrow>
             if \<not> in_range then Inl IndexOutOfRange
             else if ex ! i then Inl InsertingExistingRow else Inr (ex[i := True])
         | TEST_INSERT_PK_ONLY \<Rightarrow>
             if \<not> in_range then Inl IndexOutOfRange
             else if ex ! i then Inl InsertingExistingRow else Inr (ex[i := True])
         | TEST_UPSERT \<Rightarrow>
             if \<not> in_range then Inl IndexOutOfRange else Inr (ex[i := True])
         | TEST_UPSERT_PK_ONLY \<Rightarrow>
             if \<not> in_range then Inl IndexOutOfRange else Inr (ex[i := True])
         | TEST_UPDATE \<Rightarrow>
             if \<not> in_range then Inl IndexOutOfRange
             else if \<not> ex ! i then Inl UpdatingNonExistingRow else Inr ex
         | TEST_DELETE \<Rightarrow>
             if \<not> in_range then Inl IndexOutOfRange
             else if \<not> ex ! i then Inl DeletingNonExistingRow else Inr (ex[i := False])
         | _ \<Rightarrow> Inr ex)"

fun validate_loop :: "bool list \<Rightarrow> TestOp list \<Rightarrow> validate_error + bool list" where
  "validate_loop ex [] = Inr ex"
| "validate_loop ex (test_op # test_ops) =
     (case validate_op ex test_op of
        Inl e \<Rightarrow> Inl e
      | Inr ex' \<Rightarrow> validate_loop ex' test_ops)"

definition ValidateFuzzCase :: "int \<Rightarrow> TestOp list \<Rightarrow> validate_error + unit" where
  "ValidateFuzzCase keyspace_size test_ops =
     (if keyspace_size < 0 then Inl VectorLengthError
      else (case validate_loop (replicate (nat keyspace_size) False) test_ops of
              Inl e \<Rightarrow> Inl e
            | Inr ex \<Rightarrow> Inr ()))"

text \<open>
  The fuzzing contract in the words of the specification: walking the sequence with the
  set of live keys and the flag "mutations are pending since the last flush of
  operations", no insert meets a live key, no update or delete meets a key that is not
  live, and no flush of operations meets an empty batch. \<open>None\<close> is a broken contract.
\<close>

fun contract_step :: "int set \<times> bool \<Rightarrow> TestOp \<Rightarrow> (int set \<times> bool) option" where
  "contract_step (live, pending) (TestOp t k) =
     (if t = TEST_INSERT \<or> t = TEST_INSERT_PK_ONLY
      then (if k \<in> live then None else Some (insert k live, True))
      else if t = TEST_UPSERT \<or> t = TEST_UPSERT_PK_ONLY
      then Some (insert k live, True)
      else if t = TEST_UPDATE
      then (if k \<in> live then Some (live, True) else None)
      else if t = TEST_DELETE
      then (if k \<in> live then Some (live - {k}, True) else None)
      else if t = TEST_FLUSH_OPS
      then (if pending then Some (live, False) else None)
      else Some (live, pending))"

definition contract_run :: "(int set \<times> bool) option \<Rightarrow> TestOp list \<Rightarrow> (int set \<times> bool) option" where
  "contract_run = foldl (\<lambda>s x. case s of None \<Rightarrow> None | Some c \<Rightarrow> contract_step c x)"

definition fuzzing_contract :: "TestOp list \<Rightarrow> bool" where
  "fuzzing_contract test_ops = (contract_run (Some ({}, False)) test_ops \<noteq> None)"

subsection \<open>The invariant of the generation loop\<close>

text \<open>
  The keys that the vector \<open>exists\<close> marks, as a set; and the invariant that ties the local
  variables of \<open>GenerateTestCase\<close> to the sequence generated so far: \<open>exists\<close> is the vector
  that \<open>ValidateFuzzCase\<close> reaches on that sequence, and the contract holds on it, with
  the marked keys live and \<open>ops_pending\<close> as the flag.
\<close>

definition live_keys :: "bool list \<Rightarrow> int set" where
  "live_keys ex = {int i |i. i < length ex \<and> ex ! i}"

definition gen_inv :: "int \<Rightarrow> gen_state \<Rightarrow> bool" where
  "gen_inv keyspace_size st =
     (0 \<le> keyspace_size \<and> length (exists st) = nat keyspace_size
      \<and> validate_loop (replicate (nat keyspace_size) False) (ops st) = Inr (exists st)
      \<and> contract_run (Some ({}, False)) (ops st) = Some (live_keys (exists st), ops_pending st))"

section \<open>The identity of an RPC connection (connection\_id.cc)\<close>

text \<open>
  A \<open>ConnectionId\<close> holds a \<open>Sockaddr\<close> and a \<open>UserCredentials\<close>. Both classes are declared
  outside these sources, so their types are parameters, and so are the operations of
  theirs that \<open>ConnectionId\<close> calls: the equality and hash code of a \<open>Sockaddr\<close>, \<open>Equals\<close>
  and \<open>HashCode\<close> of \<open>UserCredentials\<close>, and \<open>boost::hash_combine\<close> on \<open>size_t\<close>.
\<close>

record ('a, 'u) ConnectionId =
  remote :: 'a
  user_credentials :: 'u

definition DoCopyFrom ::
    "('a, 'u, 'z) ConnectionId_scheme \<Rightarrow> ('a, 'u, 'z) ConnectionId_scheme
     \<Rightarrow> ('a, 'u, 'z) ConnectionId_scheme" where
  "DoCopyFrom this other = this\<lparr>remote := remote other, user_credentials := user_credentials other\<rparr>"

definition CopyFrom ::
    "('a, 'u, 'z) ConnectionId_scheme \<Rightarrow> ('a, 'u, 'z) ConnectionId_scheme
     \<Rightarrow> ('a, 'u, 'z) ConnectionId_scheme" where
  "CopyFrom this other = DoCopyFrom this other"

text \<open>
  The copy constructor: \<open>fresh\<close> is the object whose members were default-constructed
  before \<open>DoCopyFrom\<close> runs.
\<close>

definition copy_construct ::
    "('a, 'u, 'z) ConnectionId_scheme \<Rightarrow> ('a, 'u, 'z) ConnectionId_scheme
     \<Rightarrow> ('a, 'u, 'z) ConnectionId_scheme" where
  "copy_construct fresh other = DoCopyFrom fresh other"

definition HashCode ::
    "(64 word \<Rightarrow> 64 word \<Rightarrow> 64 word) \<Rightarrow> ('a \<Rightarrow> 64 word) \<Rightarrow> ('u \<Rightarrow> 64 word)
     \<Rightarrow> ('a, 'u, 'z) ConnectionId_scheme \<Rightarrow> 64 word" where
  "HashCode hash_combine remote_hash cred_hash this =
     (let seed = 0;
          seed = hash_combine seed (remote_hash (remote this));
          seed = hash_combine seed (cred_hash (user_credentials this))
      in seed)"

definition Equals ::
    "('a \<Rightarrow> 'a \<Rightarrow> bool) \<Rightarrow> ('u \<Rightarrow> 'u \<Rightarrow> bool)
     \<Rightarrow> ('a, 'u, 'z) ConnectionId_scheme \<Rightarrow> ('a, 'u, 'z) ConnectionId_scheme \<Rightarrow> bool" where
  "Equals remote_eq cred_equals this other =
     (remote_eq (remote this) (remote other)
      \<and> cred_equals (user_credentials this) (user_credentials other))"

text \<open>The functors \<open>ConnectionIdHash\<close> and \<open>ConnectionIdEqual\<close>.\<close>

definition ConnectionIdHash ::
    "(64 word \<Rightarrow> 64 word \<Rightarrow> 64 word) \<Rightarrow> ('a \<Rightarrow> 64 word) \<Rightarrow> ('u \<Rightarrow> 64 word)
     \<Rightarrow> ('a, 'u, 'z) ConnectionId_scheme \<Rightarrow> 64 word" where
  "ConnectionIdHash hash_combine remote_hash cred_hash conn_id =
     HashCode hash_combine remote_hash cred_hash conn_id"

definition ConnectionIdEqual ::
    "('a \<Rightarrow> 'a \<Rightarrow> bool) \<Rightarrow> ('u \<Rightarrow> 'u \<Rightarrow> bool)
     \<Rightarrow> ('a, 'u, 'z) ConnectionId_scheme \<Rightarrow> ('a, 'u, 'z) ConnectionId_scheme \<Rightarrow> bool" where
  "ConnectionIdEqual remote_eq cred_equals cid1 cid2 = Equals remote_eq cred_equals cid1 cid2"

section \<open>The tablet engine that the harness drives\<close>

text \<open>
  The storage engine (clock, write path, MemRowSet, DeltaMemStore, DiskRowSet, flushes and
  compactions, scanner) is not part of these sources; the harness only calls it. This
  section models it from the specification, sections 3, 4 and 6.
\<close>

subsection \<open>Rows, mutations and their inverses\<close>

text \<open>
  Modelled from the spec: the row of section 3, whose engine-side representation is
  missing. The value columns are nullable 32-bit cells; an update names columns by their
  position among the value columns. A row image is the value columns of a live row, or
  \<open>None\<close> for a tombstone. A delta is a mutation with its commit timestamp.
\<close>

type_synonym cell = "32 word option"
type_synonym changelist = "(nat \<times> cell) list"
type_synonym row_image = "cell list option"

text \<open>
  Modelled from the spec: "Mutation. One of: INSERT, UPDATE(colset), DELETE,
  REINSERT(colset)" (section 3); the engine's mutation type is missing.
\<close>

datatype mutation =
    INSERT "cell list"
  | UPDATE changelist
  | DELETE
  | REINSERT "cell list"

type_synonym delta = "int \<times> mutation"

text \<open>
  Modelled from the spec: applying a column-update record to the value columns (section
  4.4); the engine's delta application is missing. An empty changelist changes nothing.
\<close>

definition apply_changelist :: "changelist \<Rightarrow> cell list \<Rightarrow> cell list" where
  "apply_changelist cl cols = fold (\<lambda>(c, v) cs. cs[c := v]) cl cols"

text \<open>
  Modelled from the spec: the effect of one mutation on a row image (sections 3 and 4.3):
  an insert or reinsert makes the row live with its columns, a delete leaves a tombstone,
  an update changes the columns of a live row. The engine's code is missing.
\<close>

fun apply_mutation :: "mutation \<Rightarrow> row_image \<Rightarrow> row_image" where
  "apply_mutation (INSERT cols) img = Some cols"
| "apply_mutation (REINSERT cols) img = Some cols"
| "apply_mutation DELETE img = None"
| "apply_mutation (UPDATE cl) (Some cols) = Some (apply_changelist cl cols)"
| "apply_mutation (UPDATE cl) None = None"

text \<open>
  Modelled from the spec: applying a chain of deltas in order (sections 4.3 and 4.5); the
  engine's code is missing.
\<close>

definition apply_deltas :: "delta list \<Rightarrow> row_image \<Rightarrow> row_image" where
  "apply_deltas ds img = fold (\<lambda>d. apply_mutation (snd d)) ds img"

text \<open>
  Modelled from the spec: the reverse-diff of a mutation (sections 4.5 and 4.7, "undo
  and redo symmetry"): applied after the mutation it gives back the image before it. The
  reverse of an insert is a delete, of a delete a reinsert of the old columns, of an
  update an update to the old values. The engine's code is missing.
\<close>

fun invert_mutation :: "row_image \<Rightarrow> mutation \<Rightarrow> mutation" where
  "invert_mutation None m = DELETE"
| "invert_mutation (Some cols) (UPDATE cl) = UPDATE (map (\<lambda>(c, v). (c, cols ! c)) cl)"
| "invert_mutation (Some cols) DELETE = REINSERT cols"
| "invert_mutation (Some cols) (INSERT new) = REINSERT cols"
| "invert_mutation (Some cols) (REINSERT new) = REINSERT cols"

text \<open>
  Modelled from the spec: turning a redo chain that starts at image \<open>img\<close> into the undo
  records of the same mutations, latest first (section 4.5: "the undo file records the
  reverse-diffs needed to reconstruct prior states"). The engine's code is missing.
\<close>

fun invert_chain :: "row_image \<Rightarrow> delta list \<Rightarrow> delta list" where
  "invert_chain img [] = []"
| "invert_chain img ((ts, m) # ds) =
     invert_chain (apply_mutation m img) ds @ [(ts, invert_mutation img m)]"

subsection \<open>Row sets\<close>

text \<open>
  Modelled from the spec: "MemRowSet entry. (pk, value-cols, insert_ts, redo_head)"
  (section 3); the MemRowSet is missing from the sources.
\<close>

record mrs_entry =
  pk :: int
  value_cols :: "cell list"
  insert_ts :: int
  redo_head :: "delta list"

text \<open>
  Modelled from the spec: a row of a DiskRowSet (sections 3 and 4.5), missing from the
  sources: its base image and \<open>base_ts\<close>, and its part of every delta store of the row
  set. The stores are sorted by row ordinal first, so each store is kept as its slices
  per ordinal, with the row: the undo entries (latest first), the entries in each redo
  delta file (one slice per file, oldest file first), and the entries in the
  DeltaMemStore.
\<close>

record drs_row =
  d_pk :: int
  base :: row_image
  base_ts :: int
  undo :: "delta list"
  redo_slices :: "delta list list"
  dms_slice :: "delta list"

type_synonym DiskRowSet = "drs_row list"

text \<open>
  Modelled from the spec: the tablet of section 2, missing from the sources: the logical
  clock, the number of value columns of the schema, the MemRowSet in key order and the
  registry of DiskRowSets.
\<close>

record tablet =
  clock :: int
  num_value_cols :: nat
  mrs :: "mrs_entry list"
  drss :: "DiskRowSet list"

text \<open>
  Modelled from the spec: the tablet after creation (empty row sets, logical clock at
  zero); the engine's code is missing.
\<close>

definition new_tablet :: "nat \<Rightarrow> tablet" where
  "new_tablet n = \<lparr>clock = 0, num_value_cols = n, mrs = [], drss = []\<rparr>"

subsection \<open>Reads\<close>

text \<open>
  Modelled from the spec: the MemRowSet scan of section 4.3, missing from the sources: a
  row is visible when \<open>insert_ts \<le> snapshot_ts\<close> and its redo chain, applied up to the
  snapshot, does not end in a tombstone.
\<close>

definition read_mrs :: "int \<Rightarrow> mrs_entry \<Rightarrow> row_image" where
  "read_mrs T e =
     (if insert_ts e \<le> T
      then apply_deltas (filter (\<lambda>d. fst d \<le> T) (redo_head e)) (Some (value_cols e))
      else None)"

text \<open>
  Modelled from the spec: the redo entries of a DiskRowSet row in the order a reader
  meets them, the redo files and then the DeltaMemStore (sections 4.4 and 4.5); the
  engine's code is missing.
\<close>

definition redo_chain :: "drs_row \<Rightarrow> delta list" where
  "redo_chain r = concat (redo_slices r) @ dms_slice r"

text \<open>
  Modelled from the spec: the point read of section 4.5, steps 2 to 5, missing from the
  sources: for \<open>T \<ge> base_ts\<close> the redo entries with \<open>ts \<le> T\<close> are applied to the base in
  ascending order, otherwise the undo entries with \<open>ts > T\<close> in descending order.
\<close>

definition read_drs :: "int \<Rightarrow> drs_row \<Rightarrow> row_image" where
  "read_drs T r =
     (if T \<ge> base_ts r
      then apply_deltas (filter (\<lambda>d. fst d \<le> T) (redo_chain r)) (base r)
      else apply_deltas (filter (\<lambda>d. fst d > T) (undo r)) (base r))"

type_synonym scan_row = "int \<times> cell list"

text \<open>
  Modelled from the spec: the rows of one row set that a snapshot sees (section 2, data
  flow of a read); the engine's code is missing.
\<close>

definition visible_mrs :: "int \<Rightarrow> mrs_entry list \<Rightarrow> scan_row list" where
  "visible_mrs T m = List.map_filter (\<lambda>e. map_option (Pair (pk e)) (read_mrs T e)) m"

definition visible_drs :: "int \<Rightarrow> DiskRowSet \<Rightarrow> scan_row list" where
  "visible_drs T d = List.map_filter (\<lambda>r. map_option (Pair (d_pk r)) (read_drs T r)) d"

text \<open>
  Modelled from the spec: the scan at a snapshot timestamp (section 2): the
  rows of every DiskRowSet visible at \<open>T\<close>, in union with the MemRowSet rows visible at
  \<open>T\<close>, returned in key order. The scanner is missing from the sources.
\<close>

definition scan_at :: "int \<Rightarrow> tablet \<Rightarrow> scan_row list" where
  "scan_at T t =
     sort_key fst (visible_mrs T (mrs t) @ concat (map (visible_drs T) (drss t)))"

text \<open>
  Modelled from the spec: the logical clock of section 4.1, missing from the sources: it
  is incremented on each initiation of a scan and on each committed mutation batch.
\<close>

definition tick :: "tablet \<Rightarrow> tablet" where
  "tick t = t\<lparr>clock := clock t + 1\<rparr>"

text \<open>
  Modelled from the spec: opening a scanner (section 6): a scan in \<open>latest\<close> mode reads
  at the timestamp the clock gives it, a scan in \<open>at_snapshot(ts)\<close> mode reads at \<open>ts\<close>;
  both advance the clock. The scanner is missing from the sources.
\<close>

definition open_latest_scan :: "tablet \<Rightarrow> scan_row list \<times> tablet" where
  "open_latest_scan t = (scan_at (clock (tick t)) (tick t), tick t)"

definition open_snapshot_scan :: "int \<Rightarrow> tablet \<Rightarrow> scan_row list \<times> tablet" where
  "open_snapshot_scan T t = (scan_at T (tick t), tick t)"

subsection \<open>The write path\<close>

text \<open>
  Modelled from the spec: the per-row status of a batch (section 7, user errors); the
  engine's status type is missing.
\<close>

datatype row_status = OK | AlreadyPresent | NotFound | InvalidArgument

text \<open>
  Modelled from the spec: the current image of a row, with its whole redo chain applied
  (sections 4.3 and 4.5), and the lookup of a key in the MemRowSet and in the primary-key
  indexes of the DiskRowSets; the engine's code is missing.
\<close>

definition latest_mrs :: "mrs_entry \<Rightarrow> row_image" where
  "latest_mrs e = apply_deltas (redo_head e) (Some (value_cols e))"

definition latest_drs :: "drs_row \<Rightarrow> row_image" where
  "latest_drs r = apply_deltas (redo_chain r) (base r)"

definition in_mrs :: "int \<Rightarrow> tablet \<Rightarrow> mrs_entry option" where
  "in_mrs k t = find (\<lambda>e. pk e = k) (mrs t)"

definition in_drs :: "int \<Rightarrow> tablet \<Rightarrow> drs_row option" where
  "in_drs k t = find (\<lambda>r. d_pk r = k) (concat (drss t))"

text \<open>
  Modelled from the spec: "Mutate ... appends to the row's redo chain" (section 4.3) and
  "ApplyUpdate, ApplyDelete, ApplyReinsert" on the DeltaMemStore of the covering
  DiskRowSet (section 4.4); the engine's code is missing.
\<close>

definition mutate_mrs :: "int \<Rightarrow> delta \<Rightarrow> mrs_entry list \<Rightarrow> mrs_entry list" where
  "mutate_mrs k d m = map (\<lambda>e. if pk e = k then e\<lparr>redo_head := redo_head e @ [d]\<rparr> else e) m"

definition mutate_dms :: "int \<Rightarrow> delta \<Rightarrow> DiskRowSet list \<Rightarrow> DiskRowSet list" where
  "mutate_dms k d ds =
     map (map (\<lambda>r. if d_pk r = k then r\<lparr>dms_slice := dms_slice r @ [d]\<rparr> else r)) ds"

text \<open>
  Modelled from the spec: the insert of the write path (sections 2, 3 and 4.3), missing
  from the sources: it fails with \<open>AlreadyPresent\<close> when a live row has the key; the
  insert of a key whose previous generation is tombstoned is a reinsert, in the row set
  that holds the tombstone; any other insert makes a new MemRowSet entry.
\<close>

definition apply_insert :: "int \<Rightarrow> int \<Rightarrow> cell list \<Rightarrow> tablet \<Rightarrow> row_status \<times> tablet" where
  "apply_insert ts k cols t =
     (case in_mrs k t of
        Some e \<Rightarrow>
          (case latest_mrs e of
             Some live \<Rightarrow> (AlreadyPresent, t)
           | None \<Rightarrow> (OK, t\<lparr>mrs := mutate_mrs k (ts, REINSERT cols) (mrs t)\<rparr>))
      | None \<Rightarrow>
          (case in_drs k t of
             Some r \<Rightarrow>
               (case latest_drs r of
                  Some live \<Rightarrow> (AlreadyPresent, t)
                | None \<Rightarrow> (OK, t\<lparr>drss := mutate_dms k (ts, REINSERT cols) (drss t)\<rparr>))
           | None \<Rightarrow>
               (OK, t\<lparr>mrs := insort_key pk
                        \<lparr>pk = k, value_cols = cols, insert_ts = ts, redo_head = []\<rparr>
                        (mrs t)\<rparr>)))"

text \<open>
  Modelled from the spec: an update or delete of the write path (sections 2, 4.3 and
  4.4), missing from the sources: \<open>NotFound\<close> unless a live row has the key, otherwise
  the mutation goes to the redo chain of the MemRowSet entry or to the DeltaMemStore of
  the covering DiskRowSet.
\<close>

definition apply_mutate :: "int \<Rightarrow> int \<Rightarrow> mutation \<Rightarrow> tablet \<Rightarrow> row_status \<times> tablet" where
  "apply_mutate ts k m t =
     (case in_mrs k t of
        Some e \<Rightarrow>
          (case latest_mrs e of
             None \<Rightarrow> (NotFound, t)
           | Some live \<Rightarrow> (OK, t\<lparr>mrs := mutate_mrs k (ts, m) (mrs t)\<rparr>))
      | None \<Rightarrow>
          (case in_drs k t of
             Some r \<Rightarrow>
               (case latest_drs r of
                  None \<Rightarrow> (NotFound, t)
                | Some live \<Rightarrow> (OK, t\<lparr>drss := mutate_dms k (ts, m) (drss t)\<rparr>))
           | None \<Rightarrow> (NotFound, t)))"

definition is_live :: "int \<Rightarrow> tablet \<Rightarrow> bool" where
  "is_live k t =
     (case in_mrs k t of
        Some e \<Rightarrow> latest_mrs e \<noteq> None
      | None \<Rightarrow> (case in_drs k t of Some r \<Rightarrow> latest_drs r \<noteq> None | None \<Rightarrow> False))"

text \<open>
  Modelled from the spec: the columns that a write operation of the client sets, as a
  changelist over the value columns (column 1 of the schema is value column 0); an
  operation that names a column the schema does not have is an \<open>InvalidArgument\<close>
  (section 7). The client and the decoding of its operations are missing from the
  sources.
\<close>

definition set_columns :: "column_value \<Rightarrow> changelist" where
  "set_columns v = (case v of Unset \<Rightarrow> [] | SetNull \<Rightarrow> [(0, None)] | SetInt32 x \<Rightarrow> [(0, Some x)])"

definition valid_columns :: "nat \<Rightarrow> changelist \<Rightarrow> bool" where
  "valid_columns n cl = list_all (\<lambda>(c, v). c < n) cl"

text \<open>
  Modelled from the spec: applying one row operation at commit timestamp \<open>ts\<close> (section
  3): an upsert is resolved at apply time into an insert or an update; a PK-only upsert
  against an existing row is an update with an empty changelist, against a tombstoned
  row a reinsert; the columns an insert does not set are null. The engine's code is
  missing.
\<close>

definition apply_row_op :: "int \<Rightarrow> KuduWriteOperation \<Rightarrow> tablet \<Rightarrow> row_status \<times> tablet" where
  "apply_row_op ts w t =
     (let cl = set_columns (write_val w); k = write_key w;
          new_row = apply_changelist cl (replicate (num_value_cols t) None)
      in if \<not> valid_columns (num_value_cols t) cl then (InvalidArgument, t)
         else (case kind w of
                 KuduInsert \<Rightarrow> apply_insert ts k new_row t
               | KuduUpdate \<Rightarrow> apply_mutate ts k (UPDATE cl) t
               | KuduDelete \<Rightarrow> apply_mutate ts k DELETE t
               | KuduUpsert \<Rightarrow>
                   if is_live k t then apply_mutate ts k (UPDATE cl) t
                   else apply_insert ts k new_row t))"

text \<open>
  Modelled from the spec: the operations of a batch, applied in their order in the batch
  with one commit timestamp; a failed row does not abort the batch (sections 4.3 and 6).
  The engine's code is missing.
\<close>

fun apply_ops :: "int \<Rightarrow> KuduWriteOperation list \<Rightarrow> tablet \<Rightarrow> row_status list \<times> tablet" where
  "apply_ops ts [] t = ([], t)"
| "apply_ops ts (w # ws) t =
     (case apply_row_op ts w t of
        (s, t') \<Rightarrow> (case apply_ops ts ws t' of (ss, t'') \<Rightarrow> (s # ss, t'')))"

text \<open>
  Modelled from the spec: \<open>Flush()\<close> of the write session (section 6), missing from the
  sources: the buffered operations are submitted as one mutation batch that shares one
  commit timestamp, taken from the clock; an empty buffer submits nothing.
\<close>

definition session_flush :: "KuduWriteOperation list \<Rightarrow> tablet \<Rightarrow> row_status list \<times> tablet" where
  "session_flush ws t = (if ws = [] then ([], t) else apply_ops (clock t + 1) ws (tick t))"

subsection \<open>Flushes and compactions\<close>

text \<open>
  Modelled from the spec: the DiskRowSet row that the flush of a MemRowSet entry writes
  (section 4.5), missing from the sources: the base is the row's state at flush time,
  \<open>base_ts\<close> the flush timestamp, and the undo slice holds the reverse-diffs back to the
  insert.
\<close>

definition flush_entry :: "int \<Rightarrow> mrs_entry \<Rightarrow> drs_row" where
  "flush_entry flush_ts e =
     (let chain = (insert_ts e, INSERT (value_cols e)) # redo_head e
      in \<lparr>d_pk = pk e, base = apply_deltas chain None, base_ts = flush_ts,
          undo = invert_chain None chain, redo_slices = [], dms_slice = []\<rparr>)"

text \<open>
  Modelled from the spec: "Flush MRS to DRS" (section 4.7, operation 1), missing from
  the sources: the rows of the MemRowSet are dumped in key order to a new DiskRowSet and
  the MemRowSet is swapped for an empty one.
\<close>

definition FlushMRS :: "tablet \<Rightarrow> tablet" where
  "FlushMRS t =
     (if mrs t = [] then t
      else t\<lparr>mrs := [], drss := drss t @ [map (flush_entry (clock t)) (mrs t)]\<rparr>)"

text \<open>
  Modelled from the spec: the position of the first greatest element, for "pick the DRS
  with the largest DMS" (section 4.7, operation 2); the engine's policy code is missing.
\<close>

fun first_max :: "nat list \<Rightarrow> nat" where
  "first_max [] = 0"
| "first_max (x # xs) = (if list_all (\<lambda>y. y \<le> x) xs then 0 else Suc (first_max xs))"

definition dms_size :: "DiskRowSet \<Rightarrow> nat" where
  "dms_size d = sum_list (map (\<lambda>r. length (dms_slice r)) d)"

text \<open>
  Modelled from the spec: "Flush DMS to redo delta file" (section 4.7, operation 2),
  missing from the sources: the entries of the DeltaMemStore become a new redo file of
  the DiskRowSet, after the files it has, and the DeltaMemStore is replaced by an empty
  one.
\<close>

definition flush_dms_row :: "drs_row \<Rightarrow> drs_row" where
  "flush_dms_row r = r\<lparr>redo_slices := redo_slices r @ [dms_slice r], dms_slice := []\<rparr>"

definition flush_dms :: "DiskRowSet \<Rightarrow> DiskRowSet" where
  "flush_dms d = map flush_dms_row d"

definition FlushBiggestDMS :: "tablet \<Rightarrow> tablet" where
  "FlushBiggestDMS t =
     (if drss t = [] then t
      else let i = first_max (map dms_size (drss t))
           in t\<lparr>drss := (drss t)[i := flush_dms (drss t ! i)]\<rparr>)"

text \<open>
  Modelled from the spec: "Minor delta compaction" (section 4.7, operation 3), missing
  from the sources: the redo delta files of one DiskRowSet are merged into a single redo
  file; base and undo file are not touched.
\<close>

definition minor_compact_row :: "drs_row \<Rightarrow> drs_row" where
  "minor_compact_row r =
     (if redo_slices r = [] then r else r\<lparr>redo_slices := [concat (redo_slices r)]\<rparr>)"

definition minor_compact :: "DiskRowSet \<Rightarrow> DiskRowSet" where
  "minor_compact d = map minor_compact_row d"

text \<open>
  Modelled from the spec: folding a redo chain into the base of a row (section 4.7,
  operation 4: "apply redo deltas into the base columns ..., producing a new base and
  moving the applied deltas into the undo file (inverted)"); the new base timestamp is
  that of the last delta applied. The engine's code is missing.
\<close>

definition fold_into_base :: "delta list \<Rightarrow> drs_row \<Rightarrow> drs_row" where
  "fold_into_base chain r =
     r\<lparr>base := apply_deltas chain (base r),
       base_ts := (if chain = [] then base_ts r else fst (last chain)),
       undo := invert_chain (base r) chain @ undo r\<rparr>"

text \<open>
  Modelled from the spec: "Major delta compaction" (section 4.7, operation 4), missing
  from the sources: the redo delta files of one DiskRowSet are applied into its base.
\<close>

definition major_compact_row :: "drs_row \<Rightarrow> drs_row" where
  "major_compact_row r = (fold_into_base (concat (redo_slices r)) r)\<lparr>redo_slices := []\<rparr>"

definition major_compact :: "DiskRowSet \<Rightarrow> DiskRowSet" where
  "major_compact d = map major_compact_row d"

datatype DeltaCompactionType = MINOR_DELTA_COMPACTION | MAJOR_DELTA_COMPACTION

definition redo_size :: "DiskRowSet \<Rightarrow> nat" where
  "redo_size d = sum_list (map (\<lambda>r. length (concat (redo_slices r))) d)"

text \<open>
  Modelled from the spec: \<open>CompactWorstDeltas(minor|major)\<close> (section 6), missing from
  the sources: the delta compaction of one DiskRowSet, taken to be the one with the most
  entries in its redo files.
\<close>

definition CompactWorstDeltas :: "DeltaCompactionType \<Rightarrow> tablet \<Rightarrow> tablet" where
  "CompactWorstDeltas ty t =
     (if drss t = [] then t
      else let i = first_max (map redo_size (drss t))
           in t\<lparr>drss := (drss t)[i := (case ty of
                              MINOR_DELTA_COMPACTION \<Rightarrow> minor_compact (drss t ! i)
                            | MAJOR_DELTA_COMPACTION \<Rightarrow> major_compact (drss t ! i))]\<rparr>)"

text \<open>
  Modelled from the spec: the output row of a merging compaction (section 4.7, operation
  5: "applying each DRS's redo chain, producing ... output DRSs with rebuilt undo/redo
  streams"); the engine's code is missing.
\<close>

definition compact_row :: "drs_row \<Rightarrow> drs_row" where
  "compact_row r = (fold_into_base (redo_chain r) r)\<lparr>redo_slices := [], dms_slice := []\<rparr>"

text \<open>
  Modelled from the spec: \<open>Compact(force_all)\<close>, the merging compaction of section 4.7,
  operation 5, missing from the sources: the rows of all DiskRowSets are merge-sorted by
  key into one output DiskRowSet. No snapshot is ever released in the harness's runs
  (clean time stays below every timestamp), so no tombstoned row is elided.
\<close>

definition Compact :: "tablet \<Rightarrow> tablet" where
  "Compact t =
     (if concat (drss t) = [] then t
      else t\<lparr>drss := [sort_key d_pk (map compact_row (concat (drss t)))]\<rparr>)"

text \<open>
  Modelled from the spec: the restart contract of section 6, for the restart that is
  missing from the sources: "reopening the tablet directory must reproduce the exact set
  of rows and history visible at the last durable commit timestamp"; every commit is
  durable before it is visible, so the reopened tablet is the tablet that was shut down.
\<close>

definition Restart :: "tablet \<Rightarrow> tablet" where
  "Restart t = t"

text \<open>
  Modelled from the spec: a scan in \<open>latest\<close> mode with an equality predicate on the key
  (section 6, "optional equality/range predicates"); the scanner is missing from the
  sources.
\<close>

definition open_point_scan :: "int \<Rightarrow> tablet \<Rightarrow> scan_row list \<times> tablet" where
  "open_point_scan k t =
     (case open_latest_scan t of (rows, t') \<Rightarrow> (filter (\<lambda>r. fst r = k) rows, t'))"

section \<open>The run of a fuzz case (fuzz-itest.cc)\<close>

text \<open>
  What the harness reads from a row of a scan batch: the key from column 0 and, when the
  schema has more than one column and column 1 is not null, the value from column 1.
\<close>

definition row_result :: "tablet \<Rightarrow> scan_row \<Rightarrow> ExpectedKeyValueRow" where
  "row_result t r =
     \<lparr>key = fst r,
      val = (if 1 + num_value_cols t > 1 \<and> snd r ! 0 \<noteq> None then snd r ! 0 else None)\<rparr>"

text \<open>\<open>GetRow\<close>: the first row of a scan with the predicate \<open>key = k\<close>, if there is one.\<close>

definition GetRow :: "int \<Rightarrow> tablet \<Rightarrow> ExpectedKeyValueRow option \<times> tablet" where
  "GetRow k t =
     (case open_point_scan k t of
        (rows, t') \<Rightarrow>
          (case rows of
             [] \<Rightarrow> (None, t')
           | r # rest \<Rightarrow> (Some (row_result t' r), t')))"

text \<open>The state of \<open>RunFuzzCase\<close> and the ways it stops before the end of the sequence.\<close>

record fuzz_state =
  the_tablet :: tablet
  the_session :: session
  cur_val :: snapshot
  pending_val :: snapshot
  next_i :: "32 word"
  saved_vals :: saved_values
  expect_eq_failures :: "(ExpectedKeyValueRow option \<times> ExpectedKeyValueRow option) list"

datatype run_failure =
    ValidateFailed validate_error
  | VectorIndexOutOfRange
  | LogFatal fatal
  | FlushSessionDied "row_status list"
  | ScanFailed "check_error list"

text \<open>
  \<open>CheckScanAtTimestamp\<close>: an ordered snapshot scan, compared with the saved values;
  \<open>FAIL()\<close> ends the run.
\<close>

definition CheckScanAtTimestamp :: "int \<Rightarrow> fuzz_state \<Rightarrow> run_failure + fuzz_state" where
  "CheckScanAtTimestamp timestamp st =
     (case open_snapshot_scan timestamp (the_tablet st) of
        (rows, t') \<Rightarrow>
          (let found = map (row_result t') rows;
               errors = CheckRowsMatchAtTimestamp (saved_vals st) timestamp found []
           in if errors \<noteq> [] then Inl (ScanFailed errors)
              else Inr (st\<lparr>the_tablet := t'\<rparr>)))"

text \<open>
  \<open>FlushSessionOrDie\<close>, declared outside these sources: it flushes the session and aborts
  unless every row of the batch succeeded.
\<close>

definition FlushSessionOrDie :: "fuzz_state \<Rightarrow> run_failure + fuzz_state" where
  "FlushSessionOrDie st =
     (case session_flush (the_session st) (the_tablet st) of
        (statuses, t') \<Rightarrow>
          if list_all (\<lambda>s. s = OK) statuses
          then Inr (st\<lparr>the_tablet := t', the_session := []\<rparr>)
          else Inl (FlushSessionDied statuses))"

text \<open>The \<open>for\<close> loop of \<open>TEST_UPDATE\<close>: \<open>update_multiplier\<close> calls of \<open>MutateRow\<close>.\<close>

fun mutate_times :: "nat \<Rightarrow> int \<Rightarrow> fuzz_state \<Rightarrow> fuzz_state" where
  "mutate_times 0 k st = st"
| "mutate_times (Suc n) k st =
     (case MutateRow k (next_i st) (the_session st) of
        (row, session') \<Rightarrow>
          mutate_times n k
            (st\<lparr>pending_val := (pending_val st)[nat k := Some row],
                the_session := session', next_i := next_i st + 1\<rparr>))"

text \<open>
  The check at the head of the loop body: before a mutation, \<open>EXPECT_EQ\<close> compares the
  current value of the key with what \<open>GetRow\<close> reads. A failed \<open>EXPECT_EQ\<close> is recorded and
  the run goes on.
\<close>

definition expect_current :: "TestOp \<Rightarrow> fuzz_state \<Rightarrow> fuzz_state" where
  "expect_current test_op st =
     (if IsMutation (op_type test_op)
      then (case GetRow (op_val test_op) (the_tablet st) of
              (row, t') \<Rightarrow>
                st\<lparr>the_tablet := t',
                   expect_eq_failures :=
                     (if cur_val st ! nat (op_val test_op) = row then expect_eq_failures st
                      else expect_eq_failures st @ [(cur_val st ! nat (op_val test_op), row)])\<rparr>)
      else st)"

definition run_insert_or_upsert :: "TestOp \<Rightarrow> fuzz_state \<Rightarrow> run_failure + fuzz_state" where
  "run_insert_or_upsert test_op st =
     (let k = op_val test_op
      in case InsertOrUpsertRow k (next_i st) (pending_val st ! nat k) (op_type test_op)
                (the_session st) of
           Inl f \<Rightarrow> Inl (LogFatal f)
         | Inr (row, session') \<Rightarrow>
             Inr (st\<lparr>pending_val := (pending_val st)[nat k := Some row],
                     the_session := session', next_i := next_i st + 1\<rparr>))"

text \<open>
  The body of the loop of \<open>RunFuzzCase\<close> for one operation. The vectors \<open>cur_val\<close> and
  \<open>pending_val\<close> are indexed with the key of a row operation; an index outside them is
  undefined in the C++ and stops the model.
\<close>

definition run_op :: "int \<Rightarrow> TestOp \<Rightarrow> fuzz_state \<Rightarrow> run_failure + fuzz_state" where
  "run_op update_multiplier test_op st0 =
     (let k = op_val test_op
      in if IsMutation (op_type test_op) \<and> \<not> (0 \<le> k \<and> nat k < length (cur_val st0)
                                                \<and> nat k < length (pending_val st0))
         then Inl VectorIndexOutOfRange
         else
           let st = expect_current test_op st0
           in (case op_type test_op of
                 TEST_INSERT \<Rightarrow> run_insert_or_upsert test_op st
               | TEST_INSERT_PK_ONLY \<Rightarrow> run_insert_or_upsert test_op st
               | TEST_UPSERT \<Rightarrow> run_insert_or_upsert test_op st
               | TEST_UPSERT_PK_ONLY \<Rightarrow> run_insert_or_upsert test_op st
               | TEST_UPDATE \<Rightarrow> Inr (mutate_times (nat update_multiplier) k st)
               | TEST_DELETE \<Rightarrow>
                   (case DeleteRow k (the_session st) of
                      (row, session') \<Rightarrow>
                        Inr (st\<lparr>pending_val := (pending_val st)[nat k := row],
                                the_session := session'\<rparr>))
               | TEST_FLUSH_OPS \<Rightarrow>
                   (case FlushSessionOrDie st of
                      Inl f \<Rightarrow> Inl f
                    | Inr st1 \<Rightarrow>
                        (let st2 = st1\<lparr>cur_val := pending_val st1\<rparr>;
                             current_time = clock (the_tablet st2)
                         in Inr (st2\<lparr>saved_vals :=
                                       map_assign current_time (cur_val st2) (saved_vals st2)\<rparr>)))
               | TEST_FLUSH_TABLET \<Rightarrow> Inr (st\<lparr>the_tablet := FlushMRS (the_tablet st)\<rparr>)
               | TEST_FLUSH_DELTAS \<Rightarrow> Inr (st\<lparr>the_tablet := FlushBiggestDMS (the_tablet st)\<rparr>)
               | TEST_MAJOR_COMPACT_DELTAS \<Rightarrow>
                   Inr (st\<lparr>the_tablet := CompactWorstDeltas MAJOR_DELTA_COMPACTION (the_tablet st)\<rparr>)
               | TEST_MINOR_COMPACT_DELTAS \<Rightarrow>
                   Inr (st\<lparr>the_tablet := CompactWorstDeltas MINOR_DELTA_COMPACTION (the_tablet st)\<rparr>)
               | TEST_COMPACT_TABLET \<Rightarrow> Inr (st\<lparr>the_tablet := Compact (the_tablet st)\<rparr>)
               | TEST_RESTART_TS \<Rightarrow> Inr (st\<lparr>the_tablet := Restart (the_tablet st)\<rparr>)
               | TEST_SCAN_AT_TIMESTAMP \<Rightarrow> CheckScanAtTimestamp k st))"

fun run_ops :: "int \<Rightarrow> TestOp list \<Rightarrow> fuzz_state \<Rightarrow> run_failure + fuzz_state" where
  "run_ops update_multiplier [] st = Inr st"
| "run_ops update_multiplier (test_op # test_ops) st =
     (case run_op update_multiplier test_op st of
        Inl f \<Rightarrow> Inl f
      | Inr st' \<Rightarrow> run_ops update_multiplier test_ops st')"

text \<open>
  \<open>RunFuzzCase(test_ops, update_multiplier)\<close> on the tablet that
  \<open>CreateTabletAndStartClusterWithSchema\<close> made, with \<open>FLAGS_keyspace_size\<close> as an argument.
\<close>

definition RunFuzzCase ::
    "int \<Rightarrow> tablet \<Rightarrow> TestOp list \<Rightarrow> int \<Rightarrow> run_failure + fuzz_state" where
  "RunFuzzCase keyspace_size t test_ops update_multiplier =
     (case ValidateFuzzCase keyspace_size test_ops of
        Inl e \<Rightarrow> Inl (ValidateFailed e)
      | Inr u \<Rightarrow>
          run_ops update_multiplier test_ops
            \<lparr>the_tablet = t, the_session = [],
             cur_val = replicate (nat keyspace_size) None,
             pending_val = replicate (nat keyspace_size) None,
             next_i = 0, saved_vals = [], expect_eq_failures = []\<rparr>)"

section \<open>Well-formed tablets and their histories\<close>

text \<open>
  Modelled from the spec: the order invariants of section 3 on the stores of the engine,
  which is missing from the sources, for a clock value \<open>c\<close>: in a MemRowSet entry the
  insert and the redo chain are in commit order; in a DiskRowSet row the undo entries are
  not later than \<open>base_ts\<close>, the redo entries are in commit order and not earlier than
  \<open>base_ts\<close>; no timestamp is later than the clock; and no key is in two places.
\<close>

definition wf_mrs_entry :: "int \<Rightarrow> mrs_entry \<Rightarrow> bool" where
  "wf_mrs_entry c e =
     (sorted (insert_ts e # map fst (redo_head e))
      \<and> list_all (\<lambda>ts. ts \<le> c) (insert_ts e # map fst (redo_head e)))"

definition wf_drs_row :: "int \<Rightarrow> drs_row \<Rightarrow> bool" where
  "wf_drs_row c r =
     (list_all (\<lambda>d. fst d \<le> base_ts r) (undo r)
      \<and> sorted (base_ts r # map fst (redo_chain r))
      \<and> list_all (\<lambda>ts. ts \<le> c) (base_ts r # map fst (redo_chain r)))"

definition wf_tablet :: "tablet \<Rightarrow> bool" where
  "wf_tablet t =
     (list_all (wf_mrs_entry (clock t)) (mrs t)
      \<and> list_all (wf_drs_row (clock t)) (concat (drss t))
      \<and> distinct (map pk (mrs t) @ map d_pk (concat (drss t))))"

text \<open>
  Modelled from the spec: what can happen to a tablet (sections 4.7 and 6): a committed
  batch, a scan, one of the maintenance operations, a restart. The engine is missing from
  the sources.
\<close>

datatype maintenance =
    DoFlushMRS
  | DoFlushBiggestDMS
  | DoCompactWorstDeltas DeltaCompactionType
  | DoCompact

datatype tablet_event =
    CommitBatch "KuduWriteOperation list"
  | OpenScan
  | Maintain maintenance
  | DoRestart

fun maintain :: "maintenance \<Rightarrow> tablet \<Rightarrow> tablet" where
  "maintain DoFlushMRS t = FlushMRS t"
| "maintain DoFlushBiggestDMS t = FlushBiggestDMS t"
| "maintain (DoCompactWorstDeltas ty) t = CompactWorstDeltas ty t"
| "maintain DoCompact t = Compact t"

fun tablet_step :: "tablet_event \<Rightarrow> tablet \<Rightarrow> tablet" where
  "tablet_step (CommitBatch ws) t = snd (session_flush ws t)"
| "tablet_step OpenScan t = tick t"
| "tablet_step (Maintain m) t = maintain m t"
| "tablet_step DoRestart t = Restart t"

text \<open>
  Modelled from the spec: the tablet that a history of events leaves, starting from a
  new tablet with \<open>n\<close> value columns; the engine is missing from the sources.
\<close>

definition tablet_after :: "nat \<Rightarrow> tablet_event list \<Rightarrow> tablet" where
  "tablet_after n history = fold tablet_step history (new_tablet n)"

text \<open>
  For the proofs: a rewriting of rows that keeps the key, every read and the invariant of
  a row; the rows that a snapshot sees, before they are sorted; and the keys of a tablet.
\<close>

definition neutral :: "(drs_row \<Rightarrow> drs_row) \<Rightarrow> bool" where
  "neutral g = (\<forall>c r. wf_drs_row c r \<longrightarrow>
      d_pk (g r) = d_pk r \<and> wf_drs_row c (g r) \<and> (\<forall>T. read_drs T (g r) = read_drs T r)
      \<and> latest_drs (g r) = latest_drs r)"

definition all_visible :: "int \<Rightarrow> tablet \<Rightarrow> scan_row list" where
  "all_visible T t = visible_mrs T (mrs t) @ concat (map (visible_drs T) (drss t))"

definition tablet_keys :: "tablet \<Rightarrow> int list" where
  "tablet_keys t = map pk (mrs t) @ map d_pk (concat (drss t))"

section \<open>The latest state of the tablet and of the shadow model\<close>

text \<open>
  For the proofs about the run of a fuzz case: the current image of a key in the
  modelled tablet, the row the harness expects for an image, and the effect of a row
  operation and of a batch on the images of all keys.
\<close>

definition latest_image :: "tablet \<Rightarrow> int \<Rightarrow> row_image" where
  "latest_image t k =
     (case in_mrs k t of
        Some e \<Rightarrow> latest_mrs e
      | None \<Rightarrow> (case in_drs k t of Some r \<Rightarrow> latest_drs r | None \<Rightarrow> None))"

definition expected_row :: "nat \<Rightarrow> int \<Rightarrow> row_image \<Rightarrow> ExpectedKeyValueRow option" where
  "expected_row n k img =
     map_option (\<lambda>cols. \<lparr>key = k, val = (if n > 0 then cols ! 0 else None)\<rparr>) img"

definition abs_row_op ::
    "nat \<Rightarrow> KuduWriteOperation \<Rightarrow> (int \<Rightarrow> row_image) \<Rightarrow> row_status \<times> (int \<Rightarrow> row_image)" where
  "abs_row_op n w v =
     (let cl = set_columns (write_val w); k = write_key w;
          new_row = apply_changelist cl (replicate n None)
      in if \<not> valid_columns n cl then (InvalidArgument, v)
         else (case kind w of
                 KuduInsert \<Rightarrow>
                   (case v k of
                      Some live \<Rightarrow> (AlreadyPresent, v)
                    | None \<Rightarrow> (OK, v(k := Some new_row)))
               | KuduUpdate \<Rightarrow>
                   (case v k of
                      None \<Rightarrow> (NotFound, v)
                    | Some cols \<Rightarrow> (OK, v(k := Some (apply_changelist cl cols))))
               | KuduDelete \<Rightarrow>
                   (case v k of
                      None \<Rightarrow> (NotFound, v)
                    | Some cols \<Rightarrow> (OK, v(k := None)))
               | KuduUpsert \<Rightarrow>
                   (case v k of
                      Some cols \<Rightarrow> (OK, v(k := Some (apply_changelist cl cols)))
                    | None \<Rightarrow> (OK, v(k := Some new_row)))))"

fun abs_ops ::
    "nat \<Rightarrow> KuduWriteOperation list \<Rightarrow> (int \<Rightarrow> row_image)
     \<Rightarrow> row_status list \<times> (int \<Rightarrow> row_image)" where
  "abs_ops n [] v = ([], v)"
| "abs_ops n (w # ws) v =
     (case abs_row_op n w v of
        (s, v') \<Rightarrow> (case abs_ops n ws v' of (ss, v'') \<Rightarrow> (s # ss, v'')))"

definition view_cols :: "nat \<Rightarrow> (int \<Rightarrow> row_image) \<Rightarrow> bool" where
  "view_cols n v = (\<forall>k cols. v k = Some cols \<longrightarrow> length cols = n)"

definition latest_pairs :: "tablet \<Rightarrow> (int \<times> row_image) set" where
  "latest_pairs t =
     (\<lambda>e. (pk e, latest_mrs e)) ` set (mrs t)
     \<union> (\<lambda>r. (d_pk r, latest_drs r)) ` set (concat (drss t))"

text \<open>
  The shadow model agrees with the tablet: \<open>cur_val\<close> holds the expected row of every
  key's current image, and, if every operation buffered in the session succeeds,
  \<open>pending_val\<close> holds the expected rows of the images after the batch.
\<close>

definition shadow_agrees :: "fuzz_state \<Rightarrow> bool" where
  "shadow_agrees st =
     (let t = the_tablet st; n = num_value_cols t; v = latest_image t
      in wf_tablet t \<and> view_cols n v
         \<and> length (pending_val st) = length (cur_val st)
         \<and> (\<forall>k. 0 \<le> k \<and> nat k < length (cur_val st) \<longrightarrow>
               cur_val st ! nat k = expected_row n k (v k))
         \<and> (list_all (\<lambda>s. s = OK) (fst (abs_ops n (the_session st) v)) \<longrightarrow>
               (\<forall>k. 0 \<le> k \<and> nat k < length (cur_val st) \<longrightarrow>
                  pending_val st ! nat k
                    = expected_row n k (snd (abs_ops n (the_session st) v) k)))
         \<and> (the_session st = [] \<longrightarrow> pending_val st = cur_val st)
         \<and> expect_eq_failures st = [])"

section \<open>The order of the rows in a snapshot of the shadow model\<close>

text \<open>
  \<open>cur_val\<close> and \<open>pending_val\<close> are vectors indexed by key: \<open>RunFuzzCase\<close> stores the row of
  key \<open>k\<close> at index \<open>k\<close>, and \<open>CheckRowsMatchAtTimestamp\<close> walks a saved copy from index 0
  upwards. A snapshot is keyed when every entry that holds a row holds one whose key is
  its index; \<open>keyed_from i\<close> is the same for a tail that starts at index \<open>i\<close>.
\<close>

fun keyed_from :: "nat \<Rightarrow> snapshot \<Rightarrow> bool" where
  "keyed_from i [] = True"
| "keyed_from i (e # saved) =
     ((case e of None \<Rightarrow> True | Some r \<Rightarrow> key r = int i) \<and> keyed_from (Suc i) saved)"

definition keyed_snapshot :: "snapshot \<Rightarrow> bool" where
  "keyed_snapshot saved = keyed_from 0 saved"

text \<open>
  The invariant of the loop of \<open>RunFuzzCase\<close> on the shadow model: the two vectors and
  every saved snapshot are keyed, and \<open>saved_values_\<close> is ordered as a \<open>std::map\<close> with
  \<open>std::greater\<close> is.
\<close>

definition keyed_state :: "fuzz_state \<Rightarrow> bool" where
  "keyed_state st =
     (keyed_snapshot (cur_val st) \<and> keyed_snapshot (pending_val st)
      \<and> list_all keyed_snapshot (map snd (saved_vals st))
      \<and> descending_keys (saved_vals st))"

section \<open>The scans of the tablet and the saved snapshots\<close>


section \<open>Verification\<close>

subsection \<open>The saved snapshots and the comparison of a scan with them\<close>

lemma live_rows_simps:
  "live_rows [] = []"
  "live_rows (None # saved) = live_rows saved"
  "live_rows (Some e # saved) = e # live_rows saved"
  by (simp_all add: live_rows_def)

text \<open>
  The loop ends without an error and with the counter equal to the number of found rows
  exactly when it started without an error and the found rows, from \<open>found_idx\<close> on, are
  the live entries of the snapshot.
\<close>

lemma match_saved_ok:
  "found_idx \<le> length rows_found \<Longrightarrow>
   (snd (match_saved saved rows_found found_idx counter errors) = [] \<and>
    fst (match_saved saved rows_found found_idx counter errors) + found_idx
      = length rows_found + counter)
   = (errors = [] \<and> drop found_idx rows_found = live_rows saved)"
proof (induction saved rows_found found_idx counter errors rule: match_saved.induct)
  case (1 rows_found found_idx counter errors)
  then show ?case by (auto simp: live_rows_def)
next
  case (2 saved rows_found found_idx counter errors)
  then show ?case by (simp add: live_rows_def)
next
  case (3 expected_val saved rows_found found_idx counter errors)
  show ?case
  proof (cases "found_idx \<ge> length rows_found")
    case True
    then show ?thesis by (simp add: live_rows_def)
  next
    case False
    then have lt: "found_idx < length rows_found" by simp
    then have dr: "drop found_idx rows_found
        = rows_found ! found_idx # drop (Suc found_idx) rows_found"
      by (simp add: Cons_nth_drop_Suc)
    have le: "Suc found_idx \<le> length rows_found" using lt by simp
    show ?thesis
    proof (cases "key expected_val \<noteq> key (rows_found ! found_idx)")
      case True
      with 3(1)[OF False refl True le] False show ?thesis
        by (auto simp: dr live_rows_simps Let_def)
    next
      case kf: False
      show ?thesis
      proof (cases "val expected_val \<noteq> val (rows_found ! found_idx)")
        case True
        with 3(2)[OF False refl kf True le] False kf show ?thesis
          by (auto simp: dr live_rows_simps Let_def)
      next
        case vf: False
        have "expected_val = rows_found ! found_idx" using kf vf by simp
        with 3(3)[OF False refl kf vf le] False kf vf show ?thesis
          by (auto simp: dr live_rows_simps Let_def)
      qed
    qed
  qed
qed

lemma upper_bound_None:
  "(upper_bound T m = None) = (recorded_before m T = [])"
  by (induction m) (auto simp: recorded_before_def)

text \<open>
  In a map ordered by \<open>std::greater\<close>, \<open>upper_bound\<close> finds the greatest key strictly
  below the timestamp.
\<close>

lemma upper_bound_Some:
  "descending_keys m \<Longrightarrow> upper_bound T m = Some (k, s) \<Longrightarrow>
   k = Max (set (recorded_before m T)) \<and> map_of m k = Some s \<and> k < T"
proof (induction m)
  case Nil
  then show ?case by simp
next
  case (Cons a m)
  obtain k' v' where a: "a = (k', v')" by (cases a)
  show ?case
  proof (cases "k' < T")
    case True
    with Cons.prems a have ks: "k = k'" "s = v'" by simp_all
    have "\<forall>x\<in>set (map fst m). x < k'"
      using Cons.prems(1) a by (auto simp: descending_keys_def)
    then have "\<forall>x\<in>set (recorded_before m T). x \<le> k'"
      by (auto simp: recorded_before_def)
    then have "Max (set (recorded_before (a # m) T)) = k'"
      using True a by (auto simp: recorded_before_def intro!: Max_eqI)
    then show ?thesis using ks a True by simp
  next
    case False
    with Cons.prems a have ub: "upper_bound T m = Some (k, s)" by simp
    have d: "descending_keys m" using Cons.prems(1) by (simp add: descending_keys_def)
    from Cons.IH[OF d ub]
    have ih: "k = Max (set (recorded_before m T))" "map_of m k = Some s" "k < T"
      by blast+
    have "recorded_before (a # m) T = recorded_before m T"
      using False a by (simp add: recorded_before_def)
    moreover have "k \<noteq> k'" using ih(3) False by simp
    ultimately show ?thesis using ih a by auto
  qed
qed

text \<open>The map operations of the harness keep the keys strictly descending.\<close>

lemma descending_keys_empty: "descending_keys []"
  by (simp add: descending_keys_def)

lemma set_map_assign: "fst ` set (map_assign k v m) = insert k (fst ` set m)"
proof (induction m)
  case Nil
  then show ?case by simp
next
  case (Cons a m)
  obtain k' v' where a: "a = (k', v')" by (cases a)
  show ?case using Cons.IH unfolding a by (cases "k' < k"; cases "k' = k") auto
qed

lemma descending_keys_map_assign:
  "descending_keys m \<Longrightarrow> descending_keys (map_assign k v m)"
proof (induction m)
  case Nil
  then show ?case by (simp add: descending_keys_def)
next
  case (Cons a m)
  obtain k' v' where a: "a = (k', v')" by (cases a)
  have d: "descending_keys m" using Cons.prems by (simp add: descending_keys_def)
  have lt: "\<forall>x\<in>fst ` set m. x < k'" using Cons.prems a by (auto simp: descending_keys_def)
  show ?case
  proof (cases "k' < k")
    case True
    then show ?thesis using Cons.prems a lt by (auto simp: descending_keys_def)
  next
    case False
    show ?thesis
    proof (cases "k' = k")
      case True
      then show ?thesis using Cons.prems a by (auto simp: descending_keys_def)
    next
      case ne: False
      have "\<forall>x\<in>fst ` set (map_assign k v m). x < k'"
        using lt False ne by (auto simp: set_map_assign)
      then show ?thesis using Cons.IH[OF d] a False ne
        by (auto simp: descending_keys_def)
    qed
  qed
qed

text \<open>
  The check for any incoming error list: the list is empty afterwards exactly when it was
  empty before and the found rows are the rows of the selected snapshot.
\<close>

lemma CheckRowsMatchAtTimestamp_empty_iff:
  assumes "descending_keys saved_values"
  shows "(CheckRowsMatchAtTimestamp saved_values T rows_found errors = [])
       = (errors = [] \<and> rows_found = shadow_rows_at saved_values T)"
proof (cases "upper_bound T saved_values")
  case None
  then have "recorded_before saved_values T = []" by (simp add: upper_bound_None)
  then show ?thesis using None
    by (auto simp: CheckRowsMatchAtTimestamp_def shadow_rows_at_def Let_def)
next
  case (Some a)
  obtain k s where a: "a = (k, s)" by (cases a)
  from upper_bound_Some[OF assms Some[unfolded a]]
  have ks: "k = Max (set (recorded_before saved_values T))" "map_of saved_values k = Some s"
    by blast+
  have ne: "recorded_before saved_values T \<noteq> []"
    using Some upper_bound_None[of T saved_values] by simp
  have sh: "shadow_rows_at saved_values T = live_rows s"
    using ks(2) ne unfolding shadow_rows_at_def ks(1) by simp
  obtain c e where m: "match_saved s rows_found 0 0 errors = (c, e)"
    by (cases "match_saved s rows_found 0 0 errors")
  have "(e = [] \<and> c = length rows_found) = (errors = [] \<and> rows_found = live_rows s)"
    using match_saved_ok[of 0 rows_found s 0 errors] m by auto
  then show ?thesis using Some a m sh
    by (auto simp: CheckRowsMatchAtTimestamp_def Let_def)
qed

subsection \<open>The value rule and the expected row of a write\<close>

lemma word_and_1_odd: "((v :: 32 word) AND 1 \<noteq> 0) = odd v"
  by (simp add: and_one_eq odd_iff_mod_2_eq_one)


text \<open>
  Claim C5. An insert, an upsert and an update with sequence value \<open>v\<close> follow one rule:
  for an even \<open>v\<close> the value column is set to \<open>v\<close> and the expected row records \<open>v\<close>; for
  an odd \<open>v\<close> the column is set to null and the expected row records no value.
\<close>

theorem value_encoding_rule:
  "InsertOrUpsertRow k v old_row TEST_INSERT session
     = Inr (\<lparr>key = k, val = (if even v then Some v else None)\<rparr>,
            session @ [\<lparr>kind = KuduInsert, write_key = k,
                        write_val = (if even v then SetInt32 v else SetNull)\<rparr>])
   \<and> InsertOrUpsertRow k v old_row TEST_UPSERT session
     = Inr (\<lparr>key = k, val = (if even v then Some v else None)\<rparr>,
            session @ [\<lparr>kind = KuduUpsert, write_key = k,
                        write_val = (if even v then SetInt32 v else SetNull)\<rparr>])
   \<and> MutateRow k v session
     = (\<lparr>key = k, val = (if even v then Some v else None)\<rparr>,
        session @ [\<lparr>kind = KuduUpdate, write_key = k,
                    write_val = (if even v then SetInt32 v else SetNull)\<rparr>])"
  by (simp add: InsertOrUpsertRow_def MutateRow_def word_and_1_odd Let_def)

subsection \<open>The generated sequences\<close>

lemma GenerateTestCase_example:
  "GenerateTestCase 2 [TestOp TEST_DELETE 5] 2 ALL_OPS [0, 0, 7, 0]
   = Inr [TestOp TEST_INSERT 0, TestOp TEST_FLUSH_OPS 0, TestOp TEST_FLUSH_TABLET 0]"
  by (simp add: GenerateTestCase_def gen_body_def PickOpAtRandom_def kAllOps_def
      gen_insert_def gen_flush_tablet_def flush_pending_def push_back_def
      size_t_of_int_def vector_max_size_def Let_def)

lemma validate_loop_append:
  "validate_loop ex (xs @ ys) =
     (case validate_loop ex xs of Inl e \<Rightarrow> Inl e | Inr ex' \<Rightarrow> validate_loop ex' ys)"
  by (induction xs arbitrary: ex) (auto split: sum.splits)

lemma validate_loop_snoc:
  "validate_loop ex xs = Inr ex' \<Longrightarrow> validate_loop ex (xs @ [x]) = validate_op ex' x"
  by (simp add: validate_loop_append split: sum.splits)

lemma contract_run_snoc:
  "contract_run s xs = Some c \<Longrightarrow> contract_run s (xs @ [x]) = contract_step c x"
  by (simp add: contract_run_def)

lemma live_keys_mem: "(int i \<in> live_keys ex) = (i < length ex \<and> ex ! i)"
  by (auto simp: live_keys_def)

lemma live_keys_set_True:
  "i < length ex \<Longrightarrow> live_keys (ex[i := True]) = insert (int i) (live_keys ex)"
  by (auto simp: live_keys_def nth_list_update)

lemma live_keys_set_False:
  "i < length ex \<Longrightarrow> live_keys (ex[i := False]) = live_keys ex - {int i}"
  by (auto simp: live_keys_def nth_list_update)

lemma gen_inv_timestamps:
  "gen_inv ks (st\<lparr>op_timestamps := t\<rparr>) = gen_inv ks st"
  by (simp add: gen_inv_def)

lemma gen_inv_insert:
  "gen_inv ks st \<Longrightarrow> row_key < nat ks \<Longrightarrow> r = TEST_INSERT \<or> r = TEST_INSERT_PK_ONLY \<Longrightarrow>
   gen_inv ks (gen_insert r row_key st)"
  by (auto simp: gen_inv_def gen_insert_def push_back_def validate_loop_snoc contract_run_snoc
      validate_op_def live_keys_mem live_keys_set_True Let_def)

lemma gen_inv_upsert:
  "gen_inv ks st \<Longrightarrow> row_key < nat ks \<Longrightarrow> r = TEST_UPSERT \<or> r = TEST_UPSERT_PK_ONLY \<Longrightarrow>
   gen_inv ks (gen_upsert r row_key st)"
  by (auto simp: gen_inv_def gen_upsert_def push_back_def validate_loop_snoc contract_run_snoc
      validate_op_def live_keys_mem live_keys_set_True Let_def)

lemma gen_inv_update:
  "gen_inv ks st \<Longrightarrow> row_key < nat ks \<Longrightarrow> gen_inv ks (gen_update row_key st)"
  by (auto simp: gen_inv_def gen_update_def push_back_def validate_loop_snoc contract_run_snoc
      validate_op_def live_keys_mem Let_def)

lemma gen_inv_delete:
  "gen_inv ks st \<Longrightarrow> row_key < nat ks \<Longrightarrow> gen_inv ks (gen_delete row_key st)"
  by (auto simp: gen_inv_def gen_delete_def push_back_def validate_loop_snoc contract_run_snoc
      validate_op_def live_keys_mem live_keys_set_False Let_def)

lemma gen_inv_flush_ops: "gen_inv ks st \<Longrightarrow> gen_inv ks (gen_flush_ops st)"
  by (auto simp: gen_inv_def gen_flush_ops_def push_back_def validate_loop_snoc
      contract_run_snoc validate_op_def)

lemma gen_inv_flush_pending: "gen_inv ks st \<Longrightarrow> gen_inv ks (flush_pending st)"
  by (auto simp: gen_inv_def flush_pending_def push_back_def validate_loop_snoc
      contract_run_snoc validate_op_def)

lemma gen_inv_push_other:
  "gen_inv ks st \<Longrightarrow> \<not> IsMutation t \<Longrightarrow> t \<noteq> TEST_FLUSH_OPS \<Longrightarrow>
   gen_inv ks (push_back (TestOp t v) st)"
  by (cases t) (auto simp: gen_inv_def push_back_def validate_loop_snoc contract_run_snoc
      validate_op_def)

lemma gen_inv_flags:
  "gen_inv ks (st\<lparr>data_in_mrs := a\<rparr>) = gen_inv ks st"
  "gen_inv ks (st\<lparr>worth_compacting := b\<rparr>) = gen_inv ks st"
  "gen_inv ks (st\<lparr>data_in_dms := c\<rparr>) = gen_inv ks st"
  by (simp_all add: gen_inv_def)

lemma gen_inv_flush_tablet: "gen_inv ks st \<Longrightarrow> gen_inv ks (gen_flush_tablet st)"
  by (simp add: gen_flush_tablet_def gen_inv_flags gen_inv_push_other gen_inv_flush_pending)

lemma gen_inv_compact_tablet: "gen_inv ks st \<Longrightarrow> gen_inv ks (gen_compact_tablet st)"
  by (simp add: gen_compact_tablet_def gen_inv_flags gen_inv_push_other gen_inv_flush_pending)

lemma gen_inv_flush_deltas: "gen_inv ks st \<Longrightarrow> gen_inv ks (gen_flush_deltas st)"
  by (simp add: gen_flush_deltas_def gen_inv_flags gen_inv_push_other gen_inv_flush_pending)

lemmas gen_inv_cases = gen_inv_insert gen_inv_upsert gen_inv_update gen_inv_delete
  gen_inv_flush_ops gen_inv_flush_tablet gen_inv_compact_tablet gen_inv_flush_deltas
  gen_inv_push_other

lemma gen_inv_body:
  assumes "gen_body ks sets st rs = Inr (st', rs')" and "gen_inv ks st"
  shows "gen_inv ks st'"
proof -
  from assms(1) obtain r1 r2 rs0 where rs: "rs = r1 # r2 # rs0"
    by (auto simp: gen_body_def split: list.splits)
  from assms(1) rs have nz: "ks \<noteq> 0" by (auto simp: gen_body_def split: if_splits)
  from assms(2) have "0 \<le> ks" by (simp add: gen_inv_def)
  with nz have rk: "r2 mod nat ks < nat ks" by simp
  have i1: "gen_inv ks (st\<lparr>op_timestamps := op_timestamps st + 1\<rparr>)"
    using assms(2) by (simp add: gen_inv_timestamps)
  note facts = assms(1)[unfolded rs gen_body_def Let_def] nz
  show ?thesis
  proof (cases "PickOpAtRandom sets r1")
    case TEST_SCAN_AT_TIMESTAMP
    then show ?thesis using facts assms(2)
      by (auto simp: gen_inv_push_other split: if_splits list.splits)
  qed (use facts assms(2) i1 rk in \<open>auto intro!: gen_inv_cases\<close>)
qed


lemma gen_body_length:
  assumes "gen_body ks sets st rs = Inr (st', rs')"
  shows "length (ops st) \<le> length (ops st') \<and> length (ops st') \<le> length (ops st) + 2"
  using assms
  by (auto simp: gen_body_def Let_def gen_insert_def gen_upsert_def gen_update_def
      gen_delete_def gen_flush_ops_def gen_flush_tablet_def gen_compact_tablet_def
      gen_flush_deltas_def flush_pending_def push_back_def
      split: list.splits if_splits TestOpType.splits)

lemma gen_loop_returns:
  "gen_loop ks len sets st rs = Inr result \<Longrightarrow> gen_inv ks st \<Longrightarrow>
   length (ops st) \<le> vector_max_size \<Longrightarrow> length (ops st) \<le> size_t_of_int len + 1 \<Longrightarrow>
   \<exists>st'. result = ops st' \<and> gen_inv ks st' \<and> length (ops st') \<le> vector_max_size
      \<and> size_t_of_int len \<le> length (ops st') \<and> length (ops st') \<le> size_t_of_int len + 1"
proof (induction ks len sets st rs rule: gen_loop.induct)
  case (1 ks len sets st rs)
  show ?case
  proof (cases "length (ops st) < size_t_of_int len")
    case False
    with "1.prems" show ?thesis by auto
  next
    case True
    from "1.prems"(1) True obtain st1 rs1 where
      b: "gen_body ks sets st rs = Inr (st1, rs1)"
      and nl: "\<not> length (ops st1) > vector_max_size"
      and r: "gen_loop ks len sets st1 rs1 = Inr result"
      by (subst (asm) gen_loop.simps) (auto split: sum.splits if_splits)
    have i1: "gen_inv ks st1" using gen_inv_body[OF b "1.prems"(2)] .
    have l1: "length (ops st1) \<le> size_t_of_int len + 1"
      using gen_body_length[OF b] True by simp
    have m1: "length (ops st1) \<le> vector_max_size" using nl by simp
    have nn: "\<not> \<not> length (ops st) < size_t_of_int len" using True by simp
    show ?thesis using "1.IH"[OF nn b refl nl r i1 m1 l1] .
  qed
qed


lemma gen_inv_init:
  "0 \<le> ks \<Longrightarrow>
   gen_inv ks \<lparr>exists = replicate (nat ks) False, op_timestamps = 0,
              ops_pending = False, data_in_mrs = False, worth_compacting = False,
              data_in_dms = False, ops = []\<rparr>"
  by (auto simp: gen_inv_def contract_run_def live_keys_def)

lemma GenerateTestCase_returns:
  assumes "GenerateTestCase ks ops0 len sets rs = Inr test_ops"
  shows "(\<exists>st'. test_ops = ops st' \<and> gen_inv ks st')
      \<and> length test_ops \<le> vector_max_size
      \<and> size_t_of_int len \<le> length test_ops \<and> length test_ops \<le> size_t_of_int len + 1"
proof -
  from assms have ks: "0 \<le> ks" by (auto simp: GenerateTestCase_def split: if_splits)
  from assms ks have "gen_loop ks len sets
             \<lparr>exists = replicate (nat ks) False, op_timestamps = 0,
              ops_pending = False, data_in_mrs = False, worth_compacting = False,
              data_in_dms = False, ops = []\<rparr> rs = Inr test_ops"
    by (simp add: GenerateTestCase_def)
  from gen_loop_returns[OF this gen_inv_init[OF ks]] show ?thesis by auto
qed

text \<open>
  Claim C7. Whatever the length, the set of operations and the draws, a sequence that
  \<open>GenerateTestCase\<close> returns keeps the fuzzing contract (no insert of a live key, no
  update or delete of a key that is not live, no flush of operations with nothing
  pending), and \<open>ValidateFuzzCase\<close> passes on it with no \<open>CHECK\<close> failing.
\<close>

theorem GenerateTestCase_valid:
  assumes "GenerateTestCase ks ops0 len sets rs = Inr test_ops"
  shows "fuzzing_contract test_ops \<and> ValidateFuzzCase ks test_ops = Inr ()"
proof -
  from GenerateTestCase_returns[OF assms] obtain st'
    where "test_ops = ops st'" and "gen_inv ks st'" by blast
  then show ?thesis
    by (simp add: gen_inv_def fuzzing_contract_def ValidateFuzzCase_def)
qed

theorem GenerateTestCase_valid_witness:
  "GenerateTestCase 2 [] 3 PK_ONLY [1, 1, 1, 1, 2, 1, 3, 0]
     = Inr [TestOp TEST_UPSERT_PK_ONLY 1, TestOp TEST_UPSERT_PK_ONLY 1, TestOp TEST_DELETE 1]
   \<and> fuzzing_contract
       [TestOp TEST_UPSERT_PK_ONLY 1, TestOp TEST_UPSERT_PK_ONLY 1, TestOp TEST_DELETE 1]
   \<and> ValidateFuzzCase 2
       [TestOp TEST_UPSERT_PK_ONLY 1, TestOp TEST_UPSERT_PK_ONLY 1, TestOp TEST_DELETE 1]
     = Inr ()"
proof -
  have g: "GenerateTestCase 2 [] 3 PK_ONLY [1, 1, 1, 1, 2, 1, 3, 0]
     = Inr [TestOp TEST_UPSERT_PK_ONLY 1, TestOp TEST_UPSERT_PK_ONLY 1, TestOp TEST_DELETE 1]"
    by (simp add: GenerateTestCase_def gen_body_def PickOpAtRandom_def kPkOnlyOps_def
        gen_upsert_def gen_delete_def push_back_def
        size_t_of_int_def vector_max_size_def Let_def)
  show ?thesis using g GenerateTestCase_valid[OF g] by simp
qed

text \<open>
  Claim C9. A sequence that \<open>GenerateTestCase\<close> returns has at least \<open>len\<close> and at most
  \<open>len + 1\<close> operations, and it does not depend on what the vector held before the call;
  and the length \<open>len + 1\<close> does occur.
\<close>

theorem GenerateTestCase_length:
  assumes "GenerateTestCase ks ops0 len sets rs = Inr test_ops"
  shows "sint len \<le> int (length test_ops) \<and> int (length test_ops) \<le> sint len + 1
       \<and> GenerateTestCase ks [] len sets rs = Inr test_ops
       \<and> (\<exists>ks' len' sets' rs' ops'.
             GenerateTestCase ks' [] len' sets' rs' = Inr ops'
             \<and> int (length ops') = sint len' + 1)"
proof -
  from GenerateTestCase_returns[OF assms]
  have m: "length test_ops \<le> vector_max_size"
    and lo: "size_t_of_int len \<le> length test_ops"
    and hi: "length test_ops \<le> size_t_of_int len + 1"
    by simp_all
  have ge: "- (2 ^ 31) \<le> sint len" using sint_ge[of len] by simp
  have lt: "sint len < 2 ^ 31" using sint_lt[of len] by simp
  have nonneg: "0 \<le> sint len"
  proof (rule ccontr)
    assume "\<not> 0 \<le> sint len"
    then have neg: "sint len < 0" by simp
    have "sint len mod 2 ^ 64 = (sint len + 2 ^ 64) mod 2 ^ 64" by simp
    also have "\<dots> = sint len + 2 ^ 64"
      by (rule mod_pos_pos_trivial) (use ge neg in simp_all)
    finally have "sint len mod 2 ^ 64 = sint len + 2 ^ 64" .
    then have "size_t_of_int len = nat (sint len + 2 ^ 64)"
      by (simp add: size_t_of_int_def)
    then have "size_t_of_int len > vector_max_size"
      using ge by (simp add: vector_max_size_def)
    with m lo show False by simp
  qed
  then have "sint len mod 2 ^ 64 = sint len" using lt by simp
  then have sz: "size_t_of_int len = nat (sint len)" by (simp add: size_t_of_int_def)
  have same: "GenerateTestCase ks [] len sets rs = Inr test_ops"
    using assms by (simp add: GenerateTestCase_def)
  have "GenerateTestCase 2 [] 2 ALL_OPS [0, 0, 7, 0]
        = Inr [TestOp TEST_INSERT 0, TestOp TEST_FLUSH_OPS 0, TestOp TEST_FLUSH_TABLET 0]"
    using GenerateTestCase_example by (simp add: GenerateTestCase_def)
  then have ex: "\<exists>ks' len' sets' rs' ops'.
             GenerateTestCase ks' [] len' sets' rs' = Inr ops'
             \<and> int (length ops') = sint len' + 1"
    by (intro exI[of _ 2] exI[of _ ALL_OPS] exI[of _ "[0, 0, 7, 0]"]
        exI[of _ "[TestOp TEST_INSERT 0, TestOp TEST_FLUSH_OPS 0, TestOp TEST_FLUSH_TABLET 0]"])
       simp
  show ?thesis using lo hi sz nonneg same ex by auto
qed

theorem GenerateTestCase_length_witness:
  "GenerateTestCase 2 [TestOp TEST_DELETE 5] 2 ALL_OPS [0, 0, 7, 0]
     = Inr [TestOp TEST_INSERT 0, TestOp TEST_FLUSH_OPS 0, TestOp TEST_FLUSH_TABLET 0]
   \<and> sint (2 :: 32 word) \<le> 3 \<and> 3 \<le> sint (2 :: 32 word) + 1
   \<and> GenerateTestCase 2 [] 2 ALL_OPS [0, 0, 7, 0]
     = Inr [TestOp TEST_INSERT 0, TestOp TEST_FLUSH_OPS 0, TestOp TEST_FLUSH_TABLET 0]"
  using GenerateTestCase_example GenerateTestCase_length[OF GenerateTestCase_example]
  by simp

subsection \<open>ConnectionId\<close>

text \<open>
  Claim C10. After \<open>CopyFrom\<close> or copy construction from \<open>b\<close> the object equals \<open>b\<close> and
  has the hash code of \<open>b\<close>; \<open>Equals\<close> is the conjunction of the comparison of the remote
  addresses and of the user credentials; and two connection ids that are \<open>Equals\<close> have
  the same \<open>HashCode\<close>, so the two functors agree. The classes of the two members are not
  part of these sources: their comparisons are taken to be reflexive and their hash codes
  to respect their comparisons.
\<close>

theorem ConnectionId_equals_hash:
  assumes "\<And>x. remote_eq x x"
      and "\<And>u. cred_equals u u"
      and "\<And>x y. remote_eq x y \<Longrightarrow> remote_hash x = remote_hash y"
      and "\<And>u w. cred_equals u w \<Longrightarrow> cred_hash u = cred_hash w"
  shows "Equals remote_eq cred_equals (CopyFrom a b) b
       \<and> HashCode hash_combine remote_hash cred_hash (CopyFrom a b)
           = HashCode hash_combine remote_hash cred_hash b
       \<and> Equals remote_eq cred_equals (copy_construct fresh b) b
       \<and> HashCode hash_combine remote_hash cred_hash (copy_construct fresh b)
           = HashCode hash_combine remote_hash cred_hash b
       \<and> Equals remote_eq cred_equals c d
           = (remote_eq (remote c) (remote d)
              \<and> cred_equals (user_credentials c) (user_credentials d))
       \<and> (Equals remote_eq cred_equals c d \<longrightarrow>
            HashCode hash_combine remote_hash cred_hash c
              = HashCode hash_combine remote_hash cred_hash d)
       \<and> (ConnectionIdEqual remote_eq cred_equals c d \<longrightarrow>
            ConnectionIdHash hash_combine remote_hash cred_hash c
              = ConnectionIdHash hash_combine remote_hash cred_hash d)"
proof -
  have copy: "Equals remote_eq cred_equals (DoCopyFrom a b) b" for a b :: "('a, 'b, 'c) ConnectionId_scheme"
    using assms(1,2) by (simp add: Equals_def DoCopyFrom_def)
  have hash: "HashCode hash_combine remote_hash cred_hash (DoCopyFrom a b)
           = HashCode hash_combine remote_hash cred_hash b" for a b :: "('a, 'b, 'c) ConnectionId_scheme"
    by (simp add: HashCode_def DoCopyFrom_def)
  have eq: "HashCode hash_combine remote_hash cred_hash c
              = HashCode hash_combine remote_hash cred_hash d"
    if "Equals remote_eq cred_equals c d"
    using that assms(3)[of "remote c" "remote d"]
      assms(4)[of "user_credentials c" "user_credentials d"]
    by (simp add: Equals_def HashCode_def)
  show ?thesis
    using copy hash eq
    by (simp add: CopyFrom_def copy_construct_def ConnectionIdEqual_def ConnectionIdHash_def)
       (simp add: Equals_def)
qed

theorem ConnectionId_equals_hash_witness:
  "Equals (=) (=)
     (CopyFrom \<lparr>remote = 1 :: nat, user_credentials = ''alice''\<rparr>
               \<lparr>remote = 2, user_credentials = ''bob''\<rparr>)
     \<lparr>remote = 2, user_credentials = ''bob''\<rparr>
   \<and> HashCode (\<lambda>seed h. seed XOR (h + 0x9e3779b9 + push_bit 6 seed + drop_bit 2 seed))
        of_nat (\<lambda>u. of_nat (length u))
        (CopyFrom \<lparr>remote = 1 :: nat, user_credentials = ''alice''\<rparr>
                  \<lparr>remote = 2, user_credentials = ''bob''\<rparr>)
     = HashCode (\<lambda>seed h. seed XOR (h + 0x9e3779b9 + push_bit 6 seed + drop_bit 2 seed))
        of_nat (\<lambda>u. of_nat (length u))
        \<lparr>remote = 2 :: nat, user_credentials = ''bob''\<rparr>
   \<and> Equals (=) (=)
        \<lparr>remote = 2 :: nat, user_credentials = ''bob''\<rparr>
        \<lparr>remote = 2 :: nat, user_credentials = ''bob''\<rparr>"
proof -
  have r: "\<And>x :: nat. x = x" and c: "\<And>u :: string. u = u" by simp_all
  have rh: "\<And>x y :: nat. x = y \<Longrightarrow> (of_nat x :: 64 word) = of_nat y" by simp
  have ch: "\<And>u w :: string. u = w \<Longrightarrow> (of_nat (length u) :: 64 word) = of_nat (length w)"
    by simp
  from ConnectionId_equals_hash[of "(=)" "(=)" of_nat "\<lambda>u. of_nat (length u)"
      "\<lparr>remote = 1 :: nat, user_credentials = ''alice''\<rparr>"
      "\<lparr>remote = 2 :: nat, user_credentials = ''bob''\<rparr>"
      "\<lambda>seed h. seed XOR (h + 0x9e3779b9 + push_bit 6 seed + drop_bit 2 seed)"
      "\<lparr>remote = 0 :: nat, user_credentials = ''none''\<rparr>"
      "\<lparr>remote = 2 :: nat, user_credentials = ''bob''\<rparr>"
      "\<lparr>remote = 2 :: nat, user_credentials = ''bob''\<rparr>", OF r c rh ch]
  show ?thesis by (simp add: Equals_def)
qed

subsection \<open>A schema with only the primary key\<close>

lemmas engine_eval = RunFuzzCase_def ValidateFuzzCase_def validate_op_def run_op_def
  expect_current_def GetRow_def open_point_scan_def open_latest_scan_def tick_def scan_at_def
  visible_mrs_def visible_drs_def List.map_filter_def read_mrs_def read_drs_def apply_deltas_def
  run_insert_or_upsert_def InsertOrUpsertRow_def DeleteRow_def FlushSessionOrDie_def
  session_flush_def apply_row_op_def set_columns_def valid_columns_def apply_changelist_def
  apply_insert_def apply_mutate_def is_live_def in_mrs_def in_drs_def latest_mrs_def latest_drs_def
  mutate_mrs_def mutate_dms_def new_tablet_def row_result_def redo_chain_def Let_def

text \<open>
  Claim C6. On a schema that has only the key column, with the default keyspace of two
  keys, the sequence UpsertPkOnly(1), Delete(1), UpsertPkOnly(1), UpsertPkOnly(1),
  FlushOps runs to its end: no operation is refused, no expectation fails, and the scan
  afterwards returns exactly one row, with key 1. The four operations commit as one
  batch, each with status \<open>OK\<close>; and one more PK-only upsert of the row, whose changelist
  is empty, is accepted as well, leaves the row as it is and takes the next commit
  timestamp.
\<close>

theorem pk_only_schema_upserts:
  "(case RunFuzzCase 2 (new_tablet 0)
           [TestOp TEST_UPSERT_PK_ONLY 1, TestOp TEST_DELETE 1, TestOp TEST_UPSERT_PK_ONLY 1,
            TestOp TEST_UPSERT_PK_ONLY 1, TestOp TEST_FLUSH_OPS 0] 1 of
      Inl f \<Rightarrow> False
    | Inr st \<Rightarrow>
        expect_eq_failures st = []
        \<and> fst (open_latest_scan (the_tablet st)) = [(1, [])]
        \<and> cur_val st = [None, Some \<lparr>key = 1, val = None\<rparr>]
        \<and> clock (the_tablet st) = 5
        \<and> map redo_head (mrs (the_tablet st)) = [[(5, DELETE), (5, REINSERT []), (5, UPDATE [])]]
        \<and> (case session_flush [\<lparr>kind = KuduUpsert, write_key = 1, write_val = Unset\<rparr>]
                   (the_tablet st) of
              (statuses, t') \<Rightarrow>
                statuses = [OK] \<and> clock t' = 6
                \<and> map redo_head (mrs t')
                    = [[(5, DELETE), (5, REINSERT []), (5, UPDATE []), (6, UPDATE [])]]
                \<and> fst (open_latest_scan t') = [(1, [])]))
   \<and> fst (session_flush
            [\<lparr>kind = KuduUpsert, write_key = 1, write_val = Unset\<rparr>,
             \<lparr>kind = KuduDelete, write_key = 1, write_val = Unset\<rparr>,
             \<lparr>kind = KuduUpsert, write_key = 1, write_val = Unset\<rparr>,
             \<lparr>kind = KuduUpsert, write_key = 1, write_val = Unset\<rparr>]
            ((new_tablet 0)\<lparr>clock := 4\<rparr>))
       = [OK, OK, OK, OK]"
  by (simp add: engine_eval numeral_2_eq_2)


section \<open>Verification of the tablet engine\<close>

subsection \<open>Mutations and their inverses\<close>

lemma length_apply_changelist: "length (apply_changelist cl cols) = length cols"
  unfolding apply_changelist_def by (induction cl arbitrary: cols) (auto split: prod.splits)

lemma apply_changelist_untouched:
  "i \<notin> fst ` set cl \<Longrightarrow> apply_changelist cl cols ! i = cols ! i"
  unfolding apply_changelist_def
  by (induction cl arbitrary: cols) (auto split: prod.splits)

lemma restore_changelist:
  "length cs = length cols \<Longrightarrow>
   (\<And>i. i < length cols \<Longrightarrow> i \<notin> fst ` set cl \<Longrightarrow> cs ! i = cols ! i) \<Longrightarrow>
   apply_changelist (map (\<lambda>(c, v). (c, cols ! c)) cl) cs = cols"
proof (induction cl arbitrary: cs)
  case Nil
  then show ?case by (auto simp: apply_changelist_def intro: nth_equalityI)
next
  case (Cons a cl)
  obtain c v where a: "a = (c, v)" by (cases a)
  have "apply_changelist (map (\<lambda>(c, v). (c, cols ! c)) cl) (cs[c := cols ! c]) = cols"
  proof (rule Cons.IH)
    show "length (cs[c := cols ! c]) = length cols" using Cons.prems(1) by simp
  next
    fix i assume i: "i < length cols" "i \<notin> fst ` set cl"
    show "cs[c := cols ! c] ! i = cols ! i"
    proof (cases "i = c")
      case True
      then show ?thesis using i Cons.prems(1) by simp
    next
      case False
      then have "i \<notin> fst ` set (a # cl)" using i a by auto
      then show ?thesis using Cons.prems(2)[OF i(1)] False by simp
    qed
  qed
  then show ?case by (simp add: a apply_changelist_def)
qed

lemma undo_changelist:
  "apply_changelist (map (\<lambda>(c, v). (c, cols ! c)) cl) (apply_changelist cl cols) = cols"
  by (rule restore_changelist) (simp_all add: length_apply_changelist apply_changelist_untouched)

lemma apply_invert_mutation:
  "apply_mutation (invert_mutation img m) (apply_mutation m img) = img"
  by (cases img; cases m) (simp_all add: undo_changelist)

lemma apply_deltas_simps:
  "apply_deltas [] img = img"
  "apply_deltas (d # ds) img = apply_deltas ds (apply_mutation (snd d) img)"
  "apply_deltas (xs @ ys) img = apply_deltas ys (apply_deltas xs img)"
  by (simp_all add: apply_deltas_def)

lemma fst_invert_chain: "map fst (invert_chain img ds) = rev (map fst ds)"
  by (induction img ds rule: invert_chain.induct) simp_all

text \<open>
  The undo records of a chain, applied down to \<open>T\<close> to the image after the chain, give
  the image that the chain gives up to \<open>T\<close>.
\<close>

lemma undo_chain_read:
  "sorted (map fst ds) \<Longrightarrow>
   apply_deltas (filter (\<lambda>d. fst d > T) (invert_chain img ds)) (apply_deltas ds img)
     = apply_deltas (filter (\<lambda>d. fst d \<le> T) ds) img"
proof (induction ds arbitrary: img)
  case Nil
  then show ?case by (simp add: apply_deltas_simps)
next
  case (Cons a ds)
  obtain ts m where a: "a = (ts, m)" by (cases a)
  have s: "sorted (map fst ds)" and ge: "\<forall>d\<in>set ds. ts \<le> fst d"
    using Cons.prems a by auto
  note ih = Cons.IH[OF s, of "apply_mutation m img"]
  show ?case
  proof (cases "ts > T")
    case True
    then have "filter (\<lambda>d. fst d \<le> T) ds = []" using ge by (auto simp: filter_empty_conv)
    then show ?thesis using True ih a
      by (simp add: apply_deltas_simps apply_invert_mutation)
  next
    case False
    then show ?thesis using ih a by (simp add: apply_deltas_simps)
  qed
qed

lemma sorted_le_last:
  fixes x :: int
  assumes "sorted xs" and "x \<in> set xs"
  shows "x \<le> last xs"
proof -
  from assms(2) obtain ys y where xs: "xs = ys @ [y]" by (cases xs rule: rev_cases) auto
  with assms show ?thesis by (auto simp: sorted_append)
qed

lemma chain_le_last:
  assumes "sorted (map fst chain)" and "d \<in> set chain"
  shows "fst d \<le> (fst (last chain) :: int)"
proof -
  have "chain \<noteq> []" using assms(2) by auto
  then have "last (map fst chain) = fst (last chain)" by (simp add: last_map)
  moreover have "fst d \<in> set (map fst chain)" using assms(2) by simp
  ultimately show ?thesis using sorted_le_last[OF assms(1)] by metis
qed

subsection \<open>Reads of a row survive the rewriting of its stores\<close>

lemma read_fold_into_base:
  assumes "wf_drs_row c r" and "redo_chain r = chain @ rest"
    and "redo_chain r' = rest" and "base r' = base (fold_into_base chain r)"
    and "base_ts r' = base_ts (fold_into_base chain r)"
    and "undo r' = undo (fold_into_base chain r)"
  shows "read_drs T r' = read_drs T r"
proof (cases "chain = []")
  case True
  then show ?thesis using assms
    by (simp add: read_drs_def fold_into_base_def apply_deltas_simps)
next
  case False
  define bts where "bts = fst (last chain)"
  have srt: "sorted (base_ts r # map fst chain @ map fst rest)"
    and un: "\<forall>d\<in>set (undo r). fst d \<le> base_ts r"
    using assms(1,2) by (auto simp: wf_drs_row_def list_all_iff)
  have sch: "sorted (map fst chain)" using srt by (simp add: sorted_append)
  have lastin: "last chain \<in> set chain" using False by simp
  have ch_le: "\<forall>d\<in>set chain. fst d \<le> bts"
    using chain_le_last[OF sch] by (auto simp: bts_def)
  have ch_ge: "\<forall>d\<in>set chain. base_ts r \<le> fst d" using srt by auto
  have rest_ge: "\<forall>d\<in>set rest. bts \<le> fst d"
    using srt lastin by (auto simp: sorted_append bts_def)
  have bts_ge: "base_ts r \<le> bts" using ch_ge lastin by (auto simp: bts_def)
  have r': "base r' = apply_deltas chain (base r)" "base_ts r' = bts"
    "undo r' = invert_chain (base r) chain @ undo r"
    using assms(4,5,6) False by (simp_all add: fold_into_base_def bts_def)
  have inv_ts: "\<forall>d\<in>set (invert_chain (base r) chain). fst d \<le> bts"
  proof
    fix d assume "d \<in> set (invert_chain (base r) chain)"
    then have "fst d \<in> set (map fst (invert_chain (base r) chain))" by simp
    then have "fst d \<in> set (map fst chain)" by (simp add: fst_invert_chain)
    then show "fst d \<le> bts" using ch_le by auto
  qed
  show ?thesis
  proof (cases "T \<ge> bts")
    case True
    then have "filter (\<lambda>d. fst d \<le> T) chain = chain" using ch_le by (auto simp: filter_id_conv)
    then show ?thesis using True bts_ge r' assms(2,3)
      by (simp add: read_drs_def apply_deltas_simps)
  next
    case lt: False
    then have rest_none: "filter (\<lambda>d. fst d \<le> T) rest = []"
      using rest_ge by (auto simp: filter_empty_conv)
    have new: "read_drs T r'
        = apply_deltas (filter (\<lambda>d. fst d > T) (undo r))
            (apply_deltas (filter (\<lambda>d. fst d \<le> T) chain) (base r))"
      using lt r' undo_chain_read[OF sch, of T "base r"]
      by (simp add: read_drs_def apply_deltas_simps)
    show ?thesis
    proof (cases "T \<ge> base_ts r")
      case True
      then have "filter (\<lambda>d. fst d > T) (undo r) = []" using un by (auto simp: filter_empty_conv)
      then show ?thesis using new True rest_none assms(2)
        by (simp add: read_drs_def apply_deltas_simps)
    next
      case False
      then have "filter (\<lambda>d. fst d \<le> T) chain = []" using ch_ge by (auto simp: filter_empty_conv)
      then show ?thesis using new False by (simp add: read_drs_def apply_deltas_simps)
    qed
  qed
qed

lemma wf_fold_into_base:
  assumes "wf_drs_row c r" and "redo_chain r = chain @ rest"
    and "redo_chain r' = rest" and "base_ts r' = base_ts (fold_into_base chain r)"
    and "undo r' = undo (fold_into_base chain r)"
  shows "wf_drs_row c r'"
proof (cases "chain = []")
  case True
  then show ?thesis using assms by (simp add: wf_drs_row_def fold_into_base_def)
next
  case False
  define bts where "bts = fst (last chain)"
  have srt: "sorted (base_ts r # map fst chain @ map fst rest)"
    and un: "\<forall>d\<in>set (undo r). fst d \<le> base_ts r"
    and cl: "\<forall>ts\<in>set (base_ts r # map fst chain @ map fst rest). ts \<le> c"
    using assms(1,2) by (auto simp: wf_drs_row_def list_all_iff)
  have lastin: "last chain \<in> set chain" using False by simp
  have sch: "sorted (map fst chain)" using srt by (simp add: sorted_append)
  have ch_le: "\<forall>d\<in>set chain. fst d \<le> bts"
    using chain_le_last[OF sch] by (auto simp: bts_def)
  have ch_ge: "\<forall>d\<in>set chain. base_ts r \<le> fst d" using srt by auto
  have rest_ge: "\<forall>d\<in>set rest. bts \<le> fst d"
    using srt lastin by (auto simp: sorted_append bts_def)
  have bts_ge: "base_ts r \<le> bts" using ch_ge lastin by (auto simp: bts_def)
  have bts_c: "bts \<le> c" using cl lastin by (auto simp: bts_def)
  have r': "base_ts r' = bts" "undo r' = invert_chain (base r) chain @ undo r"
    using assms(4,5) False by (simp_all add: fold_into_base_def bts_def)
  have inv_ts: "\<forall>d\<in>set (invert_chain (base r) chain). fst d \<le> bts"
  proof
    fix d assume "d \<in> set (invert_chain (base r) chain)"
    then have "fst d \<in> set (map fst (invert_chain (base r) chain))" by simp
    then have "fst d \<in> set (map fst chain)" by (simp add: fst_invert_chain)
    then show "fst d \<le> bts" using ch_le by auto
  qed
  have "sorted (map fst rest)" using srt by (simp add: sorted_append)
  then show ?thesis using r' inv_ts un bts_ge rest_ge bts_c cl assms(3)
    by (auto simp: wf_drs_row_def list_all_iff)
qed

subsection \<open>Row-wise rewritings of a DiskRowSet\<close>

lemma read_drs_cong:
  "base r' = base r \<Longrightarrow> base_ts r' = base_ts r \<Longrightarrow> undo r' = undo r \<Longrightarrow>
   redo_chain r' = redo_chain r \<Longrightarrow> read_drs T r' = read_drs T r"
  by (simp add: read_drs_def)

lemma wf_drs_row_cong:
  "base_ts r' = base_ts r \<Longrightarrow> undo r' = undo r \<Longrightarrow>
   redo_chain r' = redo_chain r \<Longrightarrow> wf_drs_row c r' = wf_drs_row c r"
  by (simp add: wf_drs_row_def)

lemma latest_fold_into_base:
  assumes "redo_chain r = chain @ rest" and "redo_chain r' = rest"
    and "base r' = base (fold_into_base chain r)"
  shows "latest_drs r' = latest_drs r"
  using assms by (simp add: latest_drs_def fold_into_base_def apply_deltas_simps)

lemma neutral_flush_dms_row: "neutral flush_dms_row"
  unfolding neutral_def
proof (intro allI impI)
  fix c r assume "wf_drs_row c r"
  have rc: "redo_chain (flush_dms_row r) = redo_chain r"
    by (simp add: flush_dms_row_def redo_chain_def)
  have f: "base (flush_dms_row r) = base r" "base_ts (flush_dms_row r) = base_ts r"
    "undo (flush_dms_row r) = undo r" "d_pk (flush_dms_row r) = d_pk r"
    by (simp_all add: flush_dms_row_def)
  show "d_pk (flush_dms_row r) = d_pk r \<and> wf_drs_row c (flush_dms_row r)
      \<and> (\<forall>T. read_drs T (flush_dms_row r) = read_drs T r)
      \<and> latest_drs (flush_dms_row r) = latest_drs r"
    using \<open>wf_drs_row c r\<close> f rc read_drs_cong[OF f(1,2,3) rc] wf_drs_row_cong[OF f(2,3) rc]
    by (simp add: latest_drs_def)
qed

lemma neutral_minor_compact_row: "neutral minor_compact_row"
  unfolding neutral_def
proof (intro allI impI)
  fix c r assume "wf_drs_row c r"
  have rc: "redo_chain (minor_compact_row r) = redo_chain r"
    by (simp add: minor_compact_row_def redo_chain_def)
  have f: "base (minor_compact_row r) = base r" "base_ts (minor_compact_row r) = base_ts r"
    "undo (minor_compact_row r) = undo r" "d_pk (minor_compact_row r) = d_pk r"
    by (simp_all add: minor_compact_row_def)
  show "d_pk (minor_compact_row r) = d_pk r \<and> wf_drs_row c (minor_compact_row r)
      \<and> (\<forall>T. read_drs T (minor_compact_row r) = read_drs T r)
      \<and> latest_drs (minor_compact_row r) = latest_drs r"
    using \<open>wf_drs_row c r\<close> f rc read_drs_cong[OF f(1,2,3) rc] wf_drs_row_cong[OF f(2,3) rc]
    by (simp add: latest_drs_def)
qed

lemma neutral_major_compact_row: "neutral major_compact_row"
  unfolding neutral_def
proof (intro allI impI)
  fix c r assume wf: "wf_drs_row c r"
  let ?chain = "concat (redo_slices r)"
  let ?r' = "major_compact_row r"
  have a: "redo_chain r = ?chain @ dms_slice r" by (simp add: redo_chain_def)
  have b: "redo_chain ?r' = dms_slice r"
    by (simp add: major_compact_row_def redo_chain_def fold_into_base_def)
  have c: "base ?r' = base (fold_into_base ?chain r)"
    "base_ts ?r' = base_ts (fold_into_base ?chain r)"
    "undo ?r' = undo (fold_into_base ?chain r)"
    by (simp_all add: major_compact_row_def)
  have k: "d_pk ?r' = d_pk r" by (simp add: major_compact_row_def fold_into_base_def)
  show "d_pk ?r' = d_pk r \<and> wf_drs_row c ?r' \<and> (\<forall>T. read_drs T ?r' = read_drs T r)
      \<and> latest_drs ?r' = latest_drs r"
    using k wf_fold_into_base[OF wf a b c(2,3)] read_fold_into_base[OF wf a b c]
      latest_fold_into_base[OF a b c(1)]
    by simp
qed

lemma neutral_compact_row: "neutral compact_row"
  unfolding neutral_def
proof (intro allI impI)
  fix c r assume wf: "wf_drs_row c r"
  let ?chain = "redo_chain r"
  let ?r' = "compact_row r"
  have a: "redo_chain r = ?chain @ []" by simp
  have b: "redo_chain ?r' = []"
    by (simp add: compact_row_def redo_chain_def fold_into_base_def)
  have c: "base ?r' = base (fold_into_base ?chain r)"
    "base_ts ?r' = base_ts (fold_into_base ?chain r)"
    "undo ?r' = undo (fold_into_base ?chain r)"
    by (simp_all add: compact_row_def)
  have k: "d_pk ?r' = d_pk r" by (simp add: compact_row_def fold_into_base_def)
  show "d_pk ?r' = d_pk r \<and> wf_drs_row c ?r' \<and> (\<forall>T. read_drs T ?r' = read_drs T r)
      \<and> latest_drs ?r' = latest_drs r"
    using k wf_fold_into_base[OF wf a b c(2,3)] read_fold_into_base[OF wf a b c]
      latest_fold_into_base[OF a b c(1)]
    by simp
qed

lemma visible_drs_map_neutral:
  assumes "neutral g" and "list_all (wf_drs_row c) d"
  shows "visible_drs T (map g d) = visible_drs T d"
  using assms(2)
proof (induction d)
  case Nil
  then show ?case by simp
next
  case (Cons r d)
  then have "wf_drs_row c r" by simp
  with assms(1) have "d_pk (g r) = d_pk r" "read_drs T (g r) = read_drs T r"
    by (auto simp: neutral_def)
  then show ?case using Cons by (simp add: visible_drs_def List.map_filter_def)
qed

lemma keys_map_neutral:
  assumes "neutral g" and "list_all (wf_drs_row c) d"
  shows "map d_pk (map g d) = map d_pk d"
  using assms by (auto simp: neutral_def list_all_iff)

lemma wf_map_neutral:
  assumes "neutral g" and "list_all (wf_drs_row c) d"
  shows "list_all (wf_drs_row c) (map g d)"
  using assms by (auto simp: neutral_def list_all_iff)

lemma first_max_less: "xs \<noteq> [] \<Longrightarrow> first_max xs < length xs"
proof (induction xs)
  case Nil
  then show ?case by simp
next
  case (Cons x xs)
  show ?case
  proof (cases "list_all (\<lambda>y. y \<le> x) xs")
    case True
    then show ?thesis by simp
  next
    case False
    then have "xs \<noteq> []" by auto
    with Cons.IH False show ?thesis by simp
  qed
qed

subsection \<open>The rows a snapshot sees\<close>

lemma scan_at_all_visible: "scan_at T t = sort_key fst (all_visible T t)"
  by (simp add: scan_at_def all_visible_def)

lemma concat_visible_drs: "concat (map (visible_drs T) ds) = visible_drs T (concat ds)"
  by (induction ds) (simp_all add: visible_drs_def List.map_filter_def)

lemma keys_visible_mrs:
  "map fst (visible_mrs T m) = map pk (filter (\<lambda>e. read_mrs T e \<noteq> None) m)"
  by (induction m) (auto simp: visible_mrs_def List.map_filter_def)

lemma keys_visible_drs:
  "map fst (visible_drs T d) = map d_pk (filter (\<lambda>r. read_drs T r \<noteq> None) d)"
  by (induction d) (auto simp: visible_drs_def List.map_filter_def)

lemma distinct_all_visible:
  assumes "wf_tablet t"
  shows "distinct (map fst (all_visible T t))"
proof -
  have d: "distinct (map pk (mrs t) @ map d_pk (concat (drss t)))"
    using assms by (simp add: wf_tablet_def)
  have "map fst (all_visible T t)
      = map pk (filter (\<lambda>e. read_mrs T e \<noteq> None) (mrs t))
        @ map d_pk (filter (\<lambda>r. read_drs T r \<noteq> None) (concat (drss t)))"
    by (simp add: all_visible_def concat_visible_drs keys_visible_mrs keys_visible_drs)
  moreover have "distinct (map pk (filter (\<lambda>e. read_mrs T e \<noteq> None) (mrs t))
        @ map d_pk (filter (\<lambda>r. read_drs T r \<noteq> None) (concat (drss t))))"
    using d by (auto simp: distinct_map_filter)
  ultimately show ?thesis by simp
qed

text \<open>Sorting by key depends only on which rows there are, when no key occurs twice.\<close>

lemma sort_key_mset_eq:
  assumes "mset xs = mset ys" and "distinct (map fst xs)"
  shows "sort_key fst xs = sort_key fst ys"
proof (rule sort_key_inj_key_eq)
  show "mset xs = mset (sort_key fst ys)" using assms(1) by simp
  show "sorted (map fst (sort_key fst ys))" by simp
  show "inj_on fst (set xs)" using assms(2) by (simp add: distinct_map)
qed

lemma mset_visible_drs:
  "mset d' = mset d \<Longrightarrow> mset (visible_drs T d') = mset (visible_drs T d)"
  by (simp add: visible_drs_def List.map_filter_def)

subsection \<open>Maintenance keeps the tablet well formed and every scan the same\<close>

lemma wf_tabletI:
  assumes "list_all (wf_mrs_entry (clock t')) (mrs t')"
    and "list_all (wf_drs_row (clock t')) (concat (drss t'))"
    and "mset (tablet_keys t') = mset (tablet_keys t)" and "wf_tablet t"
  shows "wf_tablet t'"
proof -
  have "distinct (tablet_keys t)" using assms(4) by (simp add: wf_tablet_def tablet_keys_def)
  then have "distinct (tablet_keys t')"
    using mset_eq_imp_distinct_iff[OF assms(3)] by simp
  then show ?thesis using assms(1,2) by (simp add: wf_tablet_def tablet_keys_def)
qed

lemma wf_tablet_rows:
  assumes "wf_tablet t" and "i < length (drss t)"
  shows "list_all (wf_drs_row (clock t)) (drss t ! i)"
proof -
  have "drss t ! i \<in> set (drss t)" using assms(2) by simp
  then have "set (drss t ! i) \<subseteq> set (concat (drss t))" by auto
  then show ?thesis using assms(1) by (auto simp: wf_tablet_def list_all_iff)
qed

lemma update_drs_neutral:
  assumes "neutral g" and "wf_tablet t" and "i < length (drss t)"
  shows "all_visible T (t\<lparr>drss := (drss t)[i := map g (drss t ! i)]\<rparr>) = all_visible T t"
    and "wf_tablet (t\<lparr>drss := (drss t)[i := map g (drss t ! i)]\<rparr>)"
proof -
  let ?ds = "drss t" and ?ds' = "(drss t)[i := map g (drss t ! i)]"
  note rows = wf_tablet_rows[OF assms(2,3)]
  have "map (visible_drs T) ?ds' = (map (visible_drs T) ?ds)[i := visible_drs T (map g (?ds ! i))]"
    by (simp add: map_update)
  also have "\<dots> = (map (visible_drs T) ?ds)[i := map (visible_drs T) ?ds ! i]"
    using visible_drs_map_neutral[OF assms(1) rows] assms(3) by simp
  also have "\<dots> = map (visible_drs T) ?ds" by simp
  finally show "all_visible T (t\<lparr>drss := ?ds'\<rparr>) = all_visible T t"
    by (simp add: all_visible_def)
  have "map (map d_pk) ?ds' = (map (map d_pk) ?ds)[i := map d_pk (map g (?ds ! i))]"
    by (simp only: map_update)
  also have "\<dots> = (map (map d_pk) ?ds)[i := map d_pk (?ds ! i)]"
    by (simp only: keys_map_neutral[OF assms(1) rows])
  also have "\<dots> = map (map d_pk) ?ds"
    using assms(3) by (simp add: list_update_same_conv)
  finally have "concat (map (map d_pk) ?ds') = concat (map (map d_pk) ?ds)" by simp
  then have keys: "map d_pk (concat ?ds') = map d_pk (concat ?ds)"
    by (simp only: map_concat)
  have "set ?ds' \<subseteq> insert (map g (?ds ! i)) (set ?ds)" by (rule set_update_subset_insert)
  moreover have "list_all (wf_drs_row (clock t)) (map g (?ds ! i))"
    by (rule wf_map_neutral[OF assms(1) rows])
  moreover have "\<forall>d\<in>set ?ds. list_all (wf_drs_row (clock t)) d"
    using assms(2) by (auto simp: wf_tablet_def list_all_iff)
  ultimately have "\<forall>d\<in>set ?ds'. list_all (wf_drs_row (clock t)) d" by auto
  then have "list_all (wf_drs_row (clock t)) (concat ?ds')" by (auto simp: list_all_iff)
  then show "wf_tablet (t\<lparr>drss := ?ds'\<rparr>)"
    using assms(2) keys by (simp add: wf_tablet_def)
qed

lemma read_flush_entry:
  assumes "wf_mrs_entry c e"
  shows "read_drs T (flush_entry c e) = read_mrs T e"
proof -
  let ?chain = "(insert_ts e, INSERT (value_cols e)) # redo_head e"
  have srt: "sorted (map fst ?chain)" and le: "\<forall>d\<in>set ?chain. fst d \<le> c"
    using assms by (auto simp: wf_mrs_entry_def list_all_iff)
  have ge: "\<forall>d\<in>set (redo_head e). insert_ts e \<le> fst d" using srt by auto
  show ?thesis
  proof (cases "T \<ge> c")
    case True
    then have "filter (\<lambda>d. fst d \<le> T) (redo_head e) = redo_head e"
      using le by (auto simp: filter_id_conv)
    moreover have "insert_ts e \<le> T" using le True by auto
    ultimately show ?thesis using True
      by (simp add: read_drs_def read_mrs_def flush_entry_def redo_chain_def Let_def
          apply_deltas_simps)
  next
    case False
    have "read_drs T (flush_entry c e)
        = apply_deltas (filter (\<lambda>d. fst d \<le> T) ?chain) None"
      using False undo_chain_read[OF srt, of T None]
      by (simp add: read_drs_def flush_entry_def Let_def)
    also have "\<dots> = read_mrs T e"
    proof (cases "insert_ts e \<le> T")
      case True
      then show ?thesis by (simp add: read_mrs_def apply_deltas_simps)
    next
      case False
      then have "filter (\<lambda>d. fst d \<le> T) (redo_head e) = []"
        using ge by (auto simp: filter_empty_conv)
      then show ?thesis using False by (simp add: read_mrs_def apply_deltas_simps)
    qed
    finally show ?thesis .
  qed
qed

lemma wf_flush_entry:
  assumes "wf_mrs_entry c e"
  shows "wf_drs_row c (flush_entry c e)"
proof -
  let ?chain = "(insert_ts e, INSERT (value_cols e)) # redo_head e"
  have le: "\<forall>ts\<in>set (map fst ?chain). ts \<le> c"
    using assms by (auto simp: wf_mrs_entry_def list_all_iff)
  have "\<forall>d\<in>set (invert_chain None ?chain). fst d \<le> c"
  proof
    fix d assume "d \<in> set (invert_chain None ?chain)"
    then have "fst d \<in> set (map fst (invert_chain None ?chain))" by force
    then have "fst d \<in> set (map fst ?chain)" by (simp only: fst_invert_chain set_rev)
    then show "fst d \<le> c" using le by blast
  qed
  then show ?thesis
    by (simp add: wf_drs_row_def flush_entry_def Let_def redo_chain_def list_all_iff)
qed

lemma visible_flush_entries:
  "list_all (wf_mrs_entry c) m \<Longrightarrow> visible_drs T (map (flush_entry c) m) = visible_mrs T m"
proof (induction m)
  case Nil
  then show ?case by (simp add: visible_drs_def visible_mrs_def)
next
  case (Cons e m)
  then have "read_drs T (flush_entry c e) = read_mrs T e" by (simp add: read_flush_entry)
  moreover have "d_pk (flush_entry c e) = pk e" by (simp add: flush_entry_def Let_def)
  ultimately show ?case using Cons
    by (simp add: visible_drs_def visible_mrs_def List.map_filter_def)
qed

lemma FlushMRS_neutral:
  assumes "wf_tablet t"
  shows "mset (all_visible T (FlushMRS t)) = mset (all_visible T t)"
    and "wf_tablet (FlushMRS t)"
proof -
  have m: "list_all (wf_mrs_entry (clock t)) (mrs t)" using assms by (simp add: wf_tablet_def)
  show "mset (all_visible T (FlushMRS t)) = mset (all_visible T t)"
    using visible_flush_entries[OF m, of T]
    by (simp add: FlushMRS_def all_visible_def visible_mrs_def)
  have k: "map d_pk (map (flush_entry (clock t)) (mrs t)) = map pk (mrs t)"
    by (simp add: flush_entry_def Let_def)
  have rows: "list_all (wf_drs_row (clock t)) (map (flush_entry (clock t)) (mrs t))"
    using m by (auto simp: list_all_iff wf_flush_entry)
  show "wf_tablet (FlushMRS t)"
  proof (cases "mrs t = []")
    case True
    then show ?thesis using assms by (simp add: FlushMRS_def)
  next
    case False
    show ?thesis
    proof (rule wf_tabletI[OF _ _ _ assms])
      show "list_all (wf_mrs_entry (clock (FlushMRS t))) (mrs (FlushMRS t))"
        using False by (simp add: FlushMRS_def)
      show "list_all (wf_drs_row (clock (FlushMRS t))) (concat (drss (FlushMRS t)))"
        using False rows assms by (simp add: FlushMRS_def wf_tablet_def)
      show "mset (tablet_keys (FlushMRS t)) = mset (tablet_keys t)"
        using False by (simp add: FlushMRS_def tablet_keys_def flush_entry_def Let_def comp_def)
    qed
  qed
qed

lemma Compact_neutral:
  assumes "wf_tablet t"
  shows "mset (all_visible T (Compact t)) = mset (all_visible T t)"
    and "wf_tablet (Compact t)"
proof -
  let ?all = "concat (drss t)"
  let ?out = "sort_key d_pk (map compact_row ?all)"
  have rows: "list_all (wf_drs_row (clock t)) ?all" using assms by (simp add: wf_tablet_def)
  have v: "mset (visible_drs T ?out) = mset (visible_drs T ?all)"
    using mset_visible_drs[of ?out "map compact_row ?all" T]
      visible_drs_map_neutral[OF neutral_compact_row rows, of T]
    by simp
  show "mset (all_visible T (Compact t)) = mset (all_visible T t)"
    using v by (simp add: Compact_def all_visible_def concat_visible_drs)
  show "wf_tablet (Compact t)"
  proof (cases "?all = []")
    case True
    then show ?thesis using assms by (simp add: Compact_def)
  next
    case False
    have k: "mset (map d_pk ?out) = mset (map d_pk ?all)"
      using keys_map_neutral[OF neutral_compact_row rows]
      by (metis mset_map mset_sort)
    have w: "list_all (wf_drs_row (clock t)) ?out"
      using wf_map_neutral[OF neutral_compact_row rows] by (simp add: list_all_iff)
    show ?thesis
    proof (rule wf_tabletI[OF _ _ _ assms])
      have c: "Compact t = t\<lparr>drss := [?out]\<rparr>" using False by (simp only: Compact_def if_False)
      show "list_all (wf_mrs_entry (clock (Compact t))) (mrs (Compact t))"
        using assms unfolding c by (simp add: wf_tablet_def)
      show "list_all (wf_drs_row (clock (Compact t))) (concat (drss (Compact t)))"
        using w unfolding c by simp
      show "mset (tablet_keys (Compact t)) = mset (tablet_keys t)"
        using k unfolding c by (simp add: tablet_keys_def)
    qed
  qed
qed

lemma FlushBiggestDMS_neutral:
  assumes "wf_tablet t"
  shows "all_visible T (FlushBiggestDMS t) = all_visible T t"
    and "wf_tablet (FlushBiggestDMS t)"
proof -
  show "all_visible T (FlushBiggestDMS t) = all_visible T t"
  proof (cases "drss t = []")
    case True
    then show ?thesis by (simp add: FlushBiggestDMS_def)
  next
    case False
    then have "first_max (map dms_size (drss t)) < length (drss t)"
      using first_max_less[of "map dms_size (drss t)"] by simp
    from update_drs_neutral(1)[OF neutral_flush_dms_row assms this] False
    show ?thesis by (simp add: FlushBiggestDMS_def flush_dms_def Let_def)
  qed
  show "wf_tablet (FlushBiggestDMS t)"
  proof (cases "drss t = []")
    case True
    then show ?thesis using assms by (simp add: FlushBiggestDMS_def)
  next
    case False
    then have "first_max (map dms_size (drss t)) < length (drss t)"
      using first_max_less[of "map dms_size (drss t)"] by simp
    from update_drs_neutral(2)[OF neutral_flush_dms_row assms this] False
    show ?thesis by (simp add: FlushBiggestDMS_def flush_dms_def Let_def)
  qed
qed

lemma CompactWorstDeltas_neutral:
  assumes "wf_tablet t"
  shows "all_visible T (CompactWorstDeltas ty t) = all_visible T t"
    and "wf_tablet (CompactWorstDeltas ty t)"
proof -
  have i: "drss t \<noteq> [] \<Longrightarrow> first_max (map redo_size (drss t)) < length (drss t)"
    using first_max_less[of "map redo_size (drss t)"] by simp
  show "all_visible T (CompactWorstDeltas ty t) = all_visible T t"
  proof (cases "drss t = []")
    case True
    then show ?thesis by (simp add: CompactWorstDeltas_def)
  next
    case False
    from update_drs_neutral(1)[OF neutral_minor_compact_row assms i[OF False]]
      update_drs_neutral(1)[OF neutral_major_compact_row assms i[OF False]] False
    show ?thesis
      by (cases ty) (simp_all add: CompactWorstDeltas_def minor_compact_def major_compact_def Let_def)
  qed
  show "wf_tablet (CompactWorstDeltas ty t)"
  proof (cases "drss t = []")
    case True
    then show ?thesis using assms by (simp add: CompactWorstDeltas_def)
  next
    case False
    from update_drs_neutral(2)[OF neutral_minor_compact_row assms i[OF False]]
      update_drs_neutral(2)[OF neutral_major_compact_row assms i[OF False]] False
    show ?thesis
      by (cases ty) (simp_all add: CompactWorstDeltas_def minor_compact_def major_compact_def Let_def)
  qed
qed

lemma maintain_neutral:
  assumes "wf_tablet t"
  shows "scan_at T (maintain m t) = scan_at T t" and "wf_tablet (maintain m t)"
proof -
  have "mset (all_visible T (maintain m t)) = mset (all_visible T t)"
  proof (cases m)
    case DoFlushMRS
    then show ?thesis using FlushMRS_neutral(1)[OF assms] by simp
  next
    case DoFlushBiggestDMS
    then show ?thesis using FlushBiggestDMS_neutral(1)[OF assms] by simp
  next
    case (DoCompactWorstDeltas ty)
    then show ?thesis using CompactWorstDeltas_neutral(1)[OF assms] by simp
  next
    case DoCompact
    then show ?thesis using Compact_neutral(1)[OF assms] by simp
  qed
  moreover show w: "wf_tablet (maintain m t)"
    using FlushMRS_neutral(2)[OF assms] FlushBiggestDMS_neutral(2)[OF assms]
      CompactWorstDeltas_neutral(2)[OF assms] Compact_neutral(2)[OF assms]
    by (cases m) simp_all
  ultimately show "scan_at T (maintain m t) = scan_at T t"
    using sort_key_mset_eq[OF _ distinct_all_visible[OF w, of T]]
    by (simp add: scan_at_all_visible)
qed

subsection \<open>The write path keeps the tablet well formed\<close>

lemma wf_mrs_entry_mono: "wf_mrs_entry c e \<Longrightarrow> c \<le> c' \<Longrightarrow> wf_mrs_entry c' e"
  by (fastforce simp: wf_mrs_entry_def list_all_iff)

lemma wf_drs_row_mono: "wf_drs_row c r \<Longrightarrow> c \<le> c' \<Longrightarrow> wf_drs_row c' r"
  by (fastforce simp: wf_drs_row_def list_all_iff)

lemma wf_tablet_tick: "wf_tablet t \<Longrightarrow> wf_tablet (tick t)"
  unfolding wf_tablet_def tick_def list_all_iff
  using wf_mrs_entry_mono[of "clock t" _ "clock t + 1"]
    wf_drs_row_mono[of "clock t" _ "clock t + 1"]
  by auto

lemma wf_new_tablet: "wf_tablet (new_tablet n)"
  by (simp add: wf_tablet_def new_tablet_def)

lemma sorted_snoc_le:
  fixes c :: int
  shows "sorted xs \<Longrightarrow> \<forall>x\<in>set xs. x \<le> c \<Longrightarrow> sorted (xs @ [c])"
  by (simp add: sorted_append)

lemma wf_mrs_entry_append:
  assumes "wf_mrs_entry c e"
  shows "wf_mrs_entry c (e\<lparr>redo_head := redo_head e @ [(c, mu)]\<rparr>)"
proof -
  have s: "sorted (insert_ts e # map fst (redo_head e))"
    and l: "\<forall>x\<in>set (insert_ts e # map fst (redo_head e)). x \<le> c"
    using assms by (simp_all add: wf_mrs_entry_def list_all_iff)
  have "sorted ((insert_ts e # map fst (redo_head e)) @ [c])"
    by (rule sorted_snoc_le[OF s l])
  then show ?thesis using l by (simp add: wf_mrs_entry_def list_all_iff)
qed

lemma wf_drs_row_append:
  assumes "wf_drs_row c r"
  shows "wf_drs_row c (r\<lparr>dms_slice := dms_slice r @ [(c, mu)]\<rparr>)"
proof -
  have s: "sorted (base_ts r # map fst (redo_chain r))"
    and l: "\<forall>x\<in>set (base_ts r # map fst (redo_chain r)). x \<le> c"
    and u: "list_all (\<lambda>d. fst d \<le> base_ts r) (undo r)"
    using assms by (simp_all add: wf_drs_row_def list_all_iff)
  have rc: "redo_chain (r\<lparr>dms_slice := dms_slice r @ [(c, mu)]\<rparr>) = redo_chain r @ [(c, mu)]"
    by (simp add: redo_chain_def)
  have "sorted ((base_ts r # map fst (redo_chain r)) @ [c])"
    by (rule sorted_snoc_le[OF s l])
  then show ?thesis using l u by (simp add: wf_drs_row_def list_all_iff rc)
qed

lemma wf_mutate_mrs:
  "list_all (wf_mrs_entry c) m \<Longrightarrow> list_all (wf_mrs_entry c) (mutate_mrs k (c, mu) m)"
  by (auto simp: mutate_mrs_def list_all_iff wf_mrs_entry_append)

lemma keys_mutate_mrs: "map pk (mutate_mrs k d m) = map pk m"
  by (induction m) (simp_all add: mutate_mrs_def)

lemma concat_mutate_dms:
  "concat (mutate_dms k d ds)
     = map (\<lambda>r. if d_pk r = k then r\<lparr>dms_slice := dms_slice r @ [d]\<rparr> else r) (concat ds)"
  by (simp add: mutate_dms_def map_concat)

lemma wf_mutate_dms:
  "list_all (wf_drs_row c) (concat ds) \<Longrightarrow>
   list_all (wf_drs_row c) (concat (mutate_dms k (c, mu) ds))"
  unfolding concat_mutate_dms by (auto simp: list_all_iff wf_drs_row_append)

lemma keys_mutate_dms: "map d_pk (concat (mutate_dms k d ds)) = map d_pk (concat ds)"
  unfolding concat_mutate_dms by (induction "concat ds") (auto simp: comp_def)

lemma in_mrs_None: "in_mrs k t = None \<Longrightarrow> k \<notin> set (map pk (mrs t))"
  by (auto simp: in_mrs_def find_None_iff)

lemma in_drs_None: "in_drs k t = None \<Longrightarrow> k \<notin> set (map d_pk (concat (drss t)))"
  by (auto simp: in_drs_def find_None_iff)

lemma wf_apply_insert:
  assumes "wf_tablet t"
  shows "wf_tablet (snd (apply_insert (clock t) k cols t))"
proof -
  have m: "list_all (wf_mrs_entry (clock t)) (mrs t)"
    and d: "list_all (wf_drs_row (clock t)) (concat (drss t))"
    and k: "distinct (map pk (mrs t) @ map d_pk (concat (drss t)))"
    using assms by (simp_all add: wf_tablet_def)
  show ?thesis
  proof (cases "in_mrs k t")
    case (Some e)
    then show ?thesis using assms m d k
      by (cases "latest_mrs e")
         (simp_all add: apply_insert_def wf_tablet_def wf_mutate_mrs keys_mutate_mrs)
  next
    case None
    note nm = in_mrs_None[OF None]
    show ?thesis
    proof (cases "in_drs k t")
      case (Some r)
      then show ?thesis using assms m d k None
        by (cases "latest_drs r")
           (simp_all add: apply_insert_def wf_tablet_def wf_mutate_dms keys_mutate_dms)
    next
      case nd: None
      note ndk = in_drs_None[OF nd]
      let ?e = "\<lparr>pk = k, value_cols = cols, insert_ts = clock t, redo_head = []\<rparr>"
      have we: "wf_mrs_entry (clock t) ?e" by (simp add: wf_mrs_entry_def)
      have "list_all (wf_mrs_entry (clock t)) (insort_key pk ?e (mrs t))"
        using m we by (simp add: list_all_iff set_insort_key)
      moreover have "distinct (map pk (insort_key pk ?e (mrs t)) @ map d_pk (concat (drss t)))"
        using k nm ndk by (auto simp: distinct_insort_key set_insort_key)
      ultimately show ?thesis using None nd d
        by (simp add: apply_insert_def wf_tablet_def)
    qed
  qed
qed

lemma wf_apply_mutate:
  assumes "wf_tablet t"
  shows "wf_tablet (snd (apply_mutate (clock t) k mu t))"
proof -
  have m: "list_all (wf_mrs_entry (clock t)) (mrs t)"
    and d: "list_all (wf_drs_row (clock t)) (concat (drss t))"
    and k: "distinct (map pk (mrs t) @ map d_pk (concat (drss t)))"
    using assms by (simp_all add: wf_tablet_def)
  show ?thesis
  proof (cases "in_mrs k t")
    case (Some e)
    then show ?thesis using assms m d k
      by (cases "latest_mrs e")
         (simp_all add: apply_mutate_def wf_tablet_def wf_mutate_mrs keys_mutate_mrs)
  next
    case None
    show ?thesis
    proof (cases "in_drs k t")
      case (Some r)
      then show ?thesis using assms m d k None
        by (cases "latest_drs r")
           (simp_all add: apply_mutate_def wf_tablet_def wf_mutate_dms keys_mutate_dms)
    next
      case nd: None
      then show ?thesis using assms None by (simp add: apply_mutate_def)
    qed
  qed
qed

lemma clock_apply_insert: "clock (snd (apply_insert ts k cols t)) = clock t"
  by (simp add: apply_insert_def split: option.splits)

lemma clock_apply_mutate: "clock (snd (apply_mutate ts k mu t)) = clock t"
  by (simp add: apply_mutate_def split: option.splits)

lemma cols_apply_insert: "num_value_cols (snd (apply_insert ts k cols t)) = num_value_cols t"
  by (simp add: apply_insert_def split: option.splits)

lemma cols_apply_mutate: "num_value_cols (snd (apply_mutate ts k mu t)) = num_value_cols t"
  by (simp add: apply_mutate_def split: option.splits)

lemma apply_row_op_props:
  assumes "wf_tablet t"
  shows "wf_tablet (snd (apply_row_op (clock t) w t))"
    and "clock (snd (apply_row_op ts w t)) = clock t"
    and "num_value_cols (snd (apply_row_op ts w t)) = num_value_cols t"
  using wf_apply_insert[OF assms] wf_apply_mutate[OF assms] assms
  by (auto simp: apply_row_op_def Let_def clock_apply_insert clock_apply_mutate
      cols_apply_insert cols_apply_mutate split: write_kind.splits)

lemma apply_ops_props:
  "wf_tablet t \<Longrightarrow> ts = clock t \<Longrightarrow>
   wf_tablet (snd (apply_ops ts ws t)) \<and> clock (snd (apply_ops ts ws t)) = clock t
   \<and> num_value_cols (snd (apply_ops ts ws t)) = num_value_cols t"
proof (induction ws arbitrary: t)
  case Nil
  then show ?case by simp
next
  case (Cons w ws)
  obtain s t' where a: "apply_row_op ts w t = (s, t')" by (cases "apply_row_op ts w t")
  have "wf_tablet (snd (apply_row_op ts w t))"
    using apply_row_op_props(1)[OF Cons.prems(1), of w] Cons.prems(2) by simp
  moreover have "clock (snd (apply_row_op ts w t)) = clock t"
    "num_value_cols (snd (apply_row_op ts w t)) = num_value_cols t"
    by (rule apply_row_op_props(2,3)[OF Cons.prems(1)])+
  ultimately have w': "wf_tablet t'" "clock t' = clock t" "num_value_cols t' = num_value_cols t"
    using a by simp_all
  from Cons.IH[OF w'(1)] w'(2,3) Cons.prems(2) a show ?case
    by (auto split: prod.splits)
qed

lemma wf_session_flush: "wf_tablet t \<Longrightarrow> wf_tablet (snd (session_flush ws t))"
  using apply_ops_props[OF wf_tablet_tick, of t "clock t + 1" ws]
  by (simp add: session_flush_def tick_def)

lemma wf_tablet_step: "wf_tablet t \<Longrightarrow> wf_tablet (tablet_step ev t)"
  by (cases ev) (simp_all add: wf_session_flush wf_tablet_tick maintain_neutral(2) Restart_def)

lemma wf_fold_tablet_step: "wf_tablet t \<Longrightarrow> wf_tablet (fold tablet_step history t)"
  by (induction history arbitrary: t) (simp_all add: wf_tablet_step)

lemma wf_tablet_after: "wf_tablet (tablet_after n history)"
  by (simp add: tablet_after_def wf_fold_tablet_step wf_new_tablet)

lemma fold_maintain_neutral:
  "wf_tablet t \<Longrightarrow> scan_at T (fold maintain ms t) = scan_at T t \<and> wf_tablet (fold maintain ms t)"
proof (induction ms arbitrary: t)
  case Nil
  then show ?case by simp
next
  case (Cons m ms)
  from Cons.IH[OF maintain_neutral(2)[OF Cons.prems, of m]]
    maintain_neutral(1)[OF Cons.prems, of T m]
  show ?case by simp
qed

text \<open>
  Claim C2. Whatever has happened to a tablet (committed batches, scans, flushes,
  compactions, restarts), any combination of MemRowSet flush, DeltaMemStore flush, minor
  or major delta compaction and full compaction leaves the result of the ordered scan at
  every snapshot timestamp as it was, row by row.
\<close>

theorem compaction_neutrality:
  "scan_at T (fold maintain ms (tablet_after n history)) = scan_at T (tablet_after n history)"
  using fold_maintain_neutral[OF wf_tablet_after] by simp

lemmas maintenance_eval = tablet_after_def FlushMRS_def FlushBiggestDMS_def CompactWorstDeltas_def
  Compact_def flush_entry_def flush_dms_def flush_dms_row_def minor_compact_def
  minor_compact_row_def major_compact_def major_compact_row_def compact_row_def
  fold_into_base_def dms_size_def redo_size_def Restart_def

theorem compaction_neutrality_witness:
  "scan_at 3
     (fold maintain [DoFlushBiggestDMS, DoCompactWorstDeltas MAJOR_DELTA_COMPACTION, DoCompact]
        (tablet_after 1
           [CommitBatch [\<lparr>kind = KuduInsert, write_key = 0, write_val = SetInt32 2\<rparr>],
            OpenScan,
            CommitBatch [\<lparr>kind = KuduUpdate, write_key = 0, write_val = SetNull\<rparr>],
            Maintain DoFlushMRS,
            CommitBatch [\<lparr>kind = KuduDelete, write_key = 0, write_val = Unset\<rparr>]]))
     = [(0, [None])]
   \<and> scan_at 3
     (tablet_after 1
           [CommitBatch [\<lparr>kind = KuduInsert, write_key = 0, write_val = SetInt32 2\<rparr>],
            OpenScan,
            CommitBatch [\<lparr>kind = KuduUpdate, write_key = 0, write_val = SetNull\<rparr>],
            Maintain DoFlushMRS,
            CommitBatch [\<lparr>kind = KuduDelete, write_key = 0, write_val = Unset\<rparr>]])
     = [(0, [None])]
   \<and> drss (tablet_after 1
           [CommitBatch [\<lparr>kind = KuduInsert, write_key = 0, write_val = SetInt32 2\<rparr>],
            OpenScan,
            CommitBatch [\<lparr>kind = KuduUpdate, write_key = 0, write_val = SetNull\<rparr>],
            Maintain DoFlushMRS,
            CommitBatch [\<lparr>kind = KuduDelete, write_key = 0, write_val = Unset\<rparr>]])
     = [[\<lparr>d_pk = 0, base = Some [None], base_ts = 3,
          undo = [(3, UPDATE [(0, Some 2)]), (1, DELETE)],
          redo_slices = [], dms_slice = [(4, DELETE)]\<rparr>]]"
proof -
  let ?h = "[CommitBatch [\<lparr>kind = KuduInsert, write_key = 0, write_val = SetInt32 2\<rparr>],
            OpenScan,
            CommitBatch [\<lparr>kind = KuduUpdate, write_key = 0, write_val = SetNull\<rparr>],
            Maintain DoFlushMRS,
            CommitBatch [\<lparr>kind = KuduDelete, write_key = 0, write_val = Unset\<rparr>]]"
  have t: "tablet_after 1 ?h
     = \<lparr>clock = 4, num_value_cols = 1, mrs = [],
        drss = [[\<lparr>d_pk = 0, base = Some [None], base_ts = 3,
                  undo = [(3, UPDATE [(0, Some 2)]), (1, DELETE)],
                  redo_slices = [], dms_slice = [(4, DELETE)]\<rparr>]]\<rparr>"
    by (simp add: engine_eval maintenance_eval)
  have s: "scan_at 3 (tablet_after 1 ?h) = [(0, [None])]"
    unfolding t by (simp add: engine_eval)
  show ?thesis
    using s t
      compaction_neutrality[of 3
        "[DoFlushBiggestDMS, DoCompactWorstDeltas MAJOR_DELTA_COMPACTION, DoCompact]" 1 ?h]
    by simp
qed


section \<open>Verification of the run of a fuzz case\<close>

subsection \<open>A point read returns the current image\<close>

lemma filter_key_visible_mrs_none:
  "k \<notin> pk ` set m \<Longrightarrow> filter (\<lambda>r. fst r = k) (visible_mrs T m) = []"
  by (induction m) (auto simp: visible_mrs_def List.map_filter_def)

lemma filter_key_visible_drs_none:
  "k \<notin> d_pk ` set d \<Longrightarrow> filter (\<lambda>r. fst r = k) (visible_drs T d) = []"
  by (induction d) (auto simp: visible_drs_def List.map_filter_def)

lemma filter_key_visible_mrs:
  "distinct (map pk m) \<Longrightarrow>
   filter (\<lambda>r. fst r = k) (visible_mrs T m)
     = (case find (\<lambda>e. pk e = k) m of
          None \<Rightarrow> []
        | Some e \<Rightarrow> (case read_mrs T e of None \<Rightarrow> [] | Some cols \<Rightarrow> [(k, cols)]))"
proof (induction m)
  case Nil
  then show ?case by (simp add: visible_mrs_def)
next
  case (Cons e m)
  show ?case
  proof (cases "pk e = k")
    case True
    then have "k \<notin> pk ` set m" using Cons.prems by auto
    from filter_key_visible_mrs_none[OF this, of T] True show ?thesis
      by (cases "read_mrs T e") (simp_all add: visible_mrs_def List.map_filter_def)
  next
    case False
    then show ?thesis using Cons
      by (cases "read_mrs T e") (simp_all add: visible_mrs_def List.map_filter_def)
  qed
qed

lemma filter_key_visible_drs:
  "distinct (map d_pk d) \<Longrightarrow>
   filter (\<lambda>r. fst r = k) (visible_drs T d)
     = (case find (\<lambda>r. d_pk r = k) d of
          None \<Rightarrow> []
        | Some r \<Rightarrow> (case read_drs T r of None \<Rightarrow> [] | Some cols \<Rightarrow> [(k, cols)]))"
proof (induction d)
  case Nil
  then show ?case by (simp add: visible_drs_def)
next
  case (Cons r d)
  show ?case
  proof (cases "d_pk r = k")
    case True
    then have "k \<notin> d_pk ` set d" using Cons.prems by auto
    from filter_key_visible_drs_none[OF this, of T] True show ?thesis
      by (cases "read_drs T r") (simp_all add: visible_drs_def List.map_filter_def)
  next
    case False
    then show ?thesis using Cons
      by (cases "read_drs T r") (simp_all add: visible_drs_def List.map_filter_def)
  qed
qed

lemma read_mrs_latest:
  assumes "wf_mrs_entry c e" and "c \<le> T"
  shows "read_mrs T e = latest_mrs e"
proof -
  have "\<forall>x\<in>set (insert_ts e # map fst (redo_head e)). x \<le> c"
    using assms(1) by (simp add: wf_mrs_entry_def list_all_iff)
  then have "insert_ts e \<le> T" and "filter (\<lambda>d. fst d \<le> T) (redo_head e) = redo_head e"
    using assms(2) by (auto simp: filter_id_conv)
  then show ?thesis by (simp add: read_mrs_def latest_mrs_def)
qed

lemma read_drs_latest:
  assumes "wf_drs_row c r" and "c \<le> T"
  shows "read_drs T r = latest_drs r"
proof -
  have "\<forall>x\<in>set (base_ts r # map fst (redo_chain r)). x \<le> c"
    using assms(1) by (simp add: wf_drs_row_def list_all_iff)
  then have "base_ts r \<le> T" and "filter (\<lambda>d. fst d \<le> T) (redo_chain r) = redo_chain r"
    using assms(2) by (auto simp: filter_id_conv)
  then show ?thesis by (simp add: read_drs_def latest_drs_def)
qed

lemma find_mem: "find P xs = Some x \<Longrightarrow> x \<in> set xs \<and> P x"
  by (induction xs) (auto split: if_splits)

text \<open>The rows with key \<open>k\<close> that a scan at or after the clock sees.\<close>

lemma filter_key_all_visible:
  assumes "wf_tablet t" and "clock t \<le> T"
  shows "filter (\<lambda>r. fst r = k) (all_visible T t)
     = (case latest_image t k of None \<Rightarrow> [] | Some cols \<Rightarrow> [(k, cols)])"
proof -
  have dm: "distinct (map pk (mrs t))" and dd: "distinct (map d_pk (concat (drss t)))"
    and dj: "pk ` set (mrs t) \<inter> d_pk ` set (concat (drss t)) = {}"
    and wm: "\<forall>e\<in>set (mrs t). wf_mrs_entry (clock t) e"
    and wd: "\<forall>r\<in>set (concat (drss t)). wf_drs_row (clock t) r"
    using assms(1) by (auto simp: wf_tablet_def list_all_iff)
  have split: "filter (\<lambda>r. fst r = k) (all_visible T t)
      = filter (\<lambda>r. fst r = k) (visible_mrs T (mrs t))
        @ filter (\<lambda>r. fst r = k) (visible_drs T (concat (drss t)))"
    by (simp add: all_visible_def concat_visible_drs)
  show ?thesis
  proof (cases "in_mrs k t")
    case (Some e)
    then have e: "e \<in> set (mrs t)" "pk e = k" using find_mem[of _ "mrs t" e] by (auto simp: in_mrs_def)
    then have "k \<notin> d_pk ` set (concat (drss t))" using dj by auto
    then have "filter (\<lambda>r. fst r = k) (visible_drs T (concat (drss t))) = []"
      by (rule filter_key_visible_drs_none)
    moreover have "wf_mrs_entry (clock t) e" using wm e by blast
    then have "read_mrs T e = latest_mrs e" by (rule read_mrs_latest[OF _ assms(2)])
    ultimately show ?thesis using Some split filter_key_visible_mrs[OF dm, of k T]
      by (simp add: latest_image_def in_mrs_def)
  next
    case None
    then have m: "filter (\<lambda>r. fst r = k) (visible_mrs T (mrs t)) = []"
      using filter_key_visible_mrs[OF dm, of k T] by (simp add: in_mrs_def)
    show ?thesis
    proof (cases "in_drs k t")
      case nd: None
      then show ?thesis using None m split filter_key_visible_drs[OF dd, of k T]
        by (simp add: latest_image_def in_drs_def)
    next
      case (Some r)
      then have r: "r \<in> set (concat (drss t))"
        using find_mem[of _ "concat (drss t)" r] by (auto simp: in_drs_def)
      have "wf_drs_row (clock t) r" using wd r by blast
      then have "read_drs T r = latest_drs r" by (rule read_drs_latest[OF _ assms(2)])
      then show ?thesis using None Some m split filter_key_visible_drs[OF dd, of k T]
        by (simp add: latest_image_def in_drs_def)
    qed
  qed
qed

lemma latest_image_tick: "latest_image (tick t) = latest_image t"
proof
  fix k
  have "in_mrs k (tick t) = in_mrs k t" "in_drs k (tick t) = in_drs k t"
    by (simp_all add: in_mrs_def in_drs_def tick_def)
  then show "latest_image (tick t) k = latest_image t k" by (simp only: latest_image_def)
qed

lemma GetRow_latest:
  assumes "wf_tablet t"
  shows "GetRow k t = (expected_row (num_value_cols t) k (latest_image t k), tick t)"
proof -
  have w: "wf_tablet (tick t)" by (rule wf_tablet_tick[OF assms])
  have "filter (\<lambda>r. fst r = k) (scan_at (clock (tick t)) (tick t))
      = sort_key fst (filter (\<lambda>r. fst r = k) (all_visible (clock (tick t)) (tick t)))"
    by (simp add: scan_at_all_visible filter_sort)
  also have "\<dots> = (case latest_image t k of None \<Rightarrow> [] | Some cols \<Rightarrow> [(k, cols)])"
    using filter_key_all_visible[OF w order_refl, of k]
    by (simp add: latest_image_tick split: option.splits)
  finally show ?thesis
    by (cases "latest_image t k")
       (auto simp: GetRow_def open_point_scan_def open_latest_scan_def expected_row_def
          row_result_def tick_def)
qed


subsection \<open>The write path on the current images\<close>

lemma find_map_key:
  "(\<And>x. f (g x) = f x) \<Longrightarrow>
   find (\<lambda>x. f x = k) (map g xs) = map_option g (find (\<lambda>x. f x = k) xs)"
  by (induction xs) simp_all

lemma pk_mutate: "pk (if pk e = k then e\<lparr>redo_head := redo_head e @ [d]\<rparr> else e) = pk e"
  by simp

lemma d_pk_mutate: "d_pk (if d_pk r = k then r\<lparr>dms_slice := dms_slice r @ [d]\<rparr> else r) = d_pk r"
  by simp

lemma find_mutate_mrs:
  "find (\<lambda>e. pk e = k') (mutate_mrs k d m)
     = map_option (\<lambda>e. if pk e = k then e\<lparr>redo_head := redo_head e @ [d]\<rparr> else e)
         (find (\<lambda>e. pk e = k') m)"
  unfolding mutate_mrs_def by (rule find_map_key) (rule pk_mutate)

lemma find_mutate_dms:
  "find (\<lambda>r. d_pk r = k') (concat (mutate_dms k d ds))
     = map_option (\<lambda>r. if d_pk r = k then r\<lparr>dms_slice := dms_slice r @ [d]\<rparr> else r)
         (find (\<lambda>r. d_pk r = k') (concat ds))"
  unfolding concat_mutate_dms by (rule find_map_key) (rule d_pk_mutate)

lemma find_insort_new:
  "k \<notin> pk ` set m \<Longrightarrow> pk e0 = k \<Longrightarrow>
   find (\<lambda>e. pk e = k') (insort_key pk e0 m)
     = (if k' = k then Some e0 else find (\<lambda>e. pk e = k') m)"
  by (induction m) auto

lemma latest_mrs_append:
  "latest_mrs (e\<lparr>redo_head := redo_head e @ [(ts, mu)]\<rparr>) = apply_mutation mu (latest_mrs e)"
  by (simp add: latest_mrs_def apply_deltas_simps)

lemma latest_drs_append:
  "latest_drs (r\<lparr>dms_slice := dms_slice r @ [(ts, mu)]\<rparr>) = apply_mutation mu (latest_drs r)"
  by (simp add: latest_drs_def redo_chain_def apply_deltas_simps)

lemma latest_image_mutate_mrs:
  assumes "in_mrs k t = Some e"
  shows "latest_image (t\<lparr>mrs := mutate_mrs k (ts, mu) (mrs t)\<rparr>)
       = (latest_image t)(k := apply_mutation mu (latest_mrs e))"
proof
  fix k'
  let ?t' = "t\<lparr>mrs := mutate_mrs k (ts, mu) (mrs t)\<rparr>"
  have m: "in_mrs k' ?t'
      = map_option (\<lambda>e. if pk e = k then e\<lparr>redo_head := redo_head e @ [(ts, mu)]\<rparr> else e)
          (in_mrs k' t)"
    by (simp add: in_mrs_def find_mutate_mrs)
  have d: "in_drs k' ?t' = in_drs k' t" by (simp add: in_drs_def)
  have pe: "pk e = k"
    using assms find_mem[of "\<lambda>e. pk e = k" "mrs t" e] by (simp add: in_mrs_def)
  show "latest_image ?t' k' = ((latest_image t)(k := apply_mutation mu (latest_mrs e))) k'"
  proof (cases "k' = k")
    case True
    show ?thesis unfolding latest_image_def m d using True assms pe
      by (simp add: latest_mrs_append)
  next
    case False
    show ?thesis
    proof (cases "in_mrs k' t")
      case None
      show ?thesis unfolding latest_image_def m d using None False by simp
    next
      case (Some e')
      then have "pk e' = k'"
        using find_mem[of "\<lambda>e. pk e = k'" "mrs t" e'] by (simp add: in_mrs_def)
      then show ?thesis unfolding latest_image_def m d using Some False by simp
    qed
  qed
qed

lemma latest_image_mutate_dms:
  assumes "in_mrs k t = None" and "in_drs k t = Some r"
  shows "latest_image (t\<lparr>drss := mutate_dms k (ts, mu) (drss t)\<rparr>)
       = (latest_image t)(k := apply_mutation mu (latest_drs r))"
proof
  fix k'
  let ?t' = "t\<lparr>drss := mutate_dms k (ts, mu) (drss t)\<rparr>"
  have m: "in_mrs k' ?t' = in_mrs k' t" by (simp add: in_mrs_def)
  have d: "in_drs k' ?t'
      = map_option (\<lambda>r. if d_pk r = k then r\<lparr>dms_slice := dms_slice r @ [(ts, mu)]\<rparr> else r)
          (in_drs k' t)"
    by (simp add: in_drs_def find_mutate_dms)
  have pr: "d_pk r = k"
    using assms(2) find_mem[of "\<lambda>r. d_pk r = k" "concat (drss t)" r] by (simp add: in_drs_def)
  show "latest_image ?t' k' = ((latest_image t)(k := apply_mutation mu (latest_drs r))) k'"
  proof (cases "k' = k")
    case True
    show ?thesis unfolding latest_image_def m d using True assms pr
      by (simp add: latest_drs_append)
  next
    case False
    show ?thesis
    proof (cases "in_mrs k' t")
      case (Some e')
      show ?thesis unfolding latest_image_def m d using Some False by simp
    next
      case None
      show ?thesis
      proof (cases "in_drs k' t")
        case nd: None
        show ?thesis unfolding latest_image_def m d using nd None False by simp
      next
        case (Some r')
        then have "d_pk r' = k'"
          using find_mem[of "\<lambda>r. d_pk r = k'" "concat (drss t)" r'] by (simp add: in_drs_def)
        then show ?thesis unfolding latest_image_def m d using Some None False by simp
      qed
    qed
  qed
qed

lemma latest_image_insert_new:
  assumes "in_mrs k t = None" and "in_drs k t = None"
  shows "latest_image
           (t\<lparr>mrs := insort_key pk \<lparr>pk = k, value_cols = cols, insert_ts = ts, redo_head = []\<rparr>
                      (mrs t)\<rparr>)
       = (latest_image t)(k := Some cols)"
proof
  fix k'
  let ?e = "\<lparr>pk = k, value_cols = cols, insert_ts = ts, redo_head = []\<rparr>"
  let ?t' = "t\<lparr>mrs := insort_key pk ?e (mrs t)\<rparr>"
  have nk: "k \<notin> pk ` set (mrs t)" using in_mrs_None[OF assms(1)] by simp
  have m: "in_mrs k' ?t' = (if k' = k then Some ?e else in_mrs k' t)"
    using find_insort_new[OF nk, of ?e k'] by (simp add: in_mrs_def)
  have d: "in_drs k' ?t' = in_drs k' t" by (simp add: in_drs_def)
  show "latest_image ?t' k' = ((latest_image t)(k := Some cols)) k'"
    unfolding latest_image_def m d by (simp add: latest_mrs_def apply_deltas_simps)
qed

lemma refine_insert:
  assumes "apply_insert ts k cols t = (s, t')"
  shows "(case latest_image t k of
            Some live \<Rightarrow> s = AlreadyPresent \<and> t' = t
          | None \<Rightarrow> s = OK \<and> latest_image t' = (latest_image t)(k := Some cols))"
proof (cases "in_mrs k t")
  case (Some e)
  show ?thesis
  proof (cases "latest_mrs e")
    case None
    then show ?thesis using assms Some latest_image_mutate_mrs[OF Some, of ts "REINSERT cols"]
      by (auto simp: apply_insert_def latest_image_def)
  next
    case live: (Some a)
    then show ?thesis using assms Some by (auto simp: apply_insert_def latest_image_def)
  qed
next
  case None
  show ?thesis
  proof (cases "in_drs k t")
    case nd: None
    then show ?thesis using assms None latest_image_insert_new[OF None nd, of cols ts]
      by (auto simp: apply_insert_def latest_image_def)
  next
    case (Some r)
    show ?thesis
    proof (cases "latest_drs r")
      case nl: None
      then show ?thesis
        using assms None Some latest_image_mutate_dms[OF None Some, of ts "REINSERT cols"]
        by (auto simp: apply_insert_def latest_image_def)
    next
      case live: (Some a)
      then show ?thesis using assms None Some by (auto simp: apply_insert_def latest_image_def)
    qed
  qed
qed

lemma refine_mutate:
  assumes "apply_mutate ts k mu t = (s, t')"
  shows "(case latest_image t k of
            None \<Rightarrow> s = NotFound \<and> t' = t
          | Some cols \<Rightarrow>
              s = OK \<and> latest_image t' = (latest_image t)(k := apply_mutation mu (Some cols)))"
proof (cases "in_mrs k t")
  case (Some e)
  show ?thesis
  proof (cases "latest_mrs e")
    case None
    then show ?thesis using assms Some by (auto simp: apply_mutate_def latest_image_def)
  next
    case live: (Some a)
    then show ?thesis using assms Some latest_image_mutate_mrs[OF Some, of ts mu]
      by (auto simp: apply_mutate_def latest_image_def)
  qed
next
  case None
  show ?thesis
  proof (cases "in_drs k t")
    case nd: None
    then show ?thesis using assms None by (auto simp: apply_mutate_def latest_image_def)
  next
    case (Some r)
    show ?thesis
    proof (cases "latest_drs r")
      case nl: None
      then show ?thesis using assms None Some by (auto simp: apply_mutate_def latest_image_def)
    next
      case live: (Some a)
      then show ?thesis
        using assms None Some latest_image_mutate_dms[OF None Some, of ts mu]
        by (auto simp: apply_mutate_def latest_image_def)
    qed
  qed
qed

lemma is_live_latest: "is_live k t = (latest_image t k \<noteq> None)"
  by (simp add: is_live_def latest_image_def split: option.splits)

lemma refine_row_op:
  assumes "apply_row_op ts w t = (s, t')"
  shows "abs_row_op (num_value_cols t) w (latest_image t) = (s, latest_image t')"
proof -
  let ?cl = "set_columns (write_val w)" and ?k = "write_key w" and ?n = "num_value_cols t"
  let ?new = "apply_changelist ?cl (replicate ?n None)"
  show ?thesis
  proof (cases "valid_columns ?n ?cl")
    case False
    then show ?thesis using assms by (simp add: apply_row_op_def abs_row_op_def Let_def)
  next
    case True
    have ins: "apply_insert ts ?k ?new t = (s, t') \<Longrightarrow>
        (case latest_image t ?k of
           Some live \<Rightarrow> (AlreadyPresent, latest_image t)
         | None \<Rightarrow> (OK, (latest_image t)(?k := Some ?new))) = (s, latest_image t')"
      using refine_insert[of ts ?k ?new t s t'] by (auto split: option.splits)
    have mut: "apply_mutate ts ?k mu t = (s, t') \<Longrightarrow>
        (case latest_image t ?k of
           None \<Rightarrow> (NotFound, latest_image t)
         | Some cols \<Rightarrow> (OK, (latest_image t)(?k := apply_mutation mu (Some cols))))
        = (s, latest_image t')" for mu
      using refine_mutate[of ts ?k mu t s t'] by (auto split: option.splits)
    show ?thesis
    proof (cases "kind w")
      case KuduInsert
      then show ?thesis using assms True ins
        by (simp add: apply_row_op_def abs_row_op_def Let_def)
    next
      case KuduUpsert
      show ?thesis
      proof (cases "latest_image t ?k")
        case None
        then show ?thesis using assms True ins KuduUpsert
          by (simp add: apply_row_op_def abs_row_op_def Let_def is_live_latest)
      next
        case (Some cols)
        then show ?thesis using assms True mut[of "UPDATE ?cl"] KuduUpsert
          by (simp add: apply_row_op_def abs_row_op_def Let_def is_live_latest)
      qed
    next
      case KuduUpdate
      then show ?thesis using assms True mut[of "UPDATE ?cl"]
        by (auto simp: apply_row_op_def abs_row_op_def Let_def split: option.splits)
    next
      case KuduDelete
      then show ?thesis using assms True mut[of DELETE]
        by (auto simp: apply_row_op_def abs_row_op_def Let_def split: option.splits)
    qed
  qed
qed

lemma cols_apply_row_op: "num_value_cols (snd (apply_row_op ts w t)) = num_value_cols t"
  by (simp add: apply_row_op_def Let_def cols_apply_insert cols_apply_mutate
      split: write_kind.splits)

lemma refine_ops:
  "apply_ops ts ws t = (ss, t') \<Longrightarrow>
   abs_ops (num_value_cols t) ws (latest_image t) = (ss, latest_image t')"
proof (induction ws arbitrary: t ss t')
  case Nil
  then show ?case by simp
next
  case (Cons w ws)
  obtain s t1 where a: "apply_row_op ts w t = (s, t1)" by (cases "apply_row_op ts w t")
  obtain ss1 t2 where b: "apply_ops ts ws t1 = (ss1, t2)" by (cases "apply_ops ts ws t1")
  have n: "num_value_cols t1 = num_value_cols t"
    using a cols_apply_row_op[of ts w t] by simp
  from Cons.IH[OF b] refine_row_op[OF a] a b Cons.prems n show ?case by auto
qed


subsection \<open>Maintenance keeps the current images\<close>

lemma latest_pairs_unique:
  assumes "wf_tablet t" and "(k, a) \<in> latest_pairs t" and "(k, b) \<in> latest_pairs t"
  shows "a = b"
proof -
  have dm: "inj_on pk (set (mrs t))" and dd: "inj_on d_pk (set (concat (drss t)))"
    and dj: "pk ` set (mrs t) \<inter> d_pk ` set (concat (drss t)) = {}"
    using assms(1) by (auto simp: wf_tablet_def distinct_map)
  from assms(2) consider
      e where "e \<in> set (mrs t)" "pk e = k" "a = latest_mrs e"
    | r where "r \<in> set (concat (drss t))" "d_pk r = k" "a = latest_drs r"
    by (auto simp: latest_pairs_def)
  then show ?thesis
  proof cases
    case 1
    from assms(3) consider
        e' where "e' \<in> set (mrs t)" "pk e' = k" "b = latest_mrs e'"
      | r' where "r' \<in> set (concat (drss t))" "d_pk r' = k" "b = latest_drs r'"
      by (auto simp: latest_pairs_def)
    then show ?thesis
    proof cases
      case 1
      with \<open>e \<in> set (mrs t)\<close> \<open>pk e = k\<close> dm have "e' = e" by (auto dest: inj_onD)
      then show ?thesis using 1 \<open>a = latest_mrs e\<close> by simp
    next
      case 2
      with \<open>e \<in> set (mrs t)\<close> \<open>pk e = k\<close> dj show ?thesis by blast
    qed
  next
    case 2
    from assms(3) consider
        e' where "e' \<in> set (mrs t)" "pk e' = k" "b = latest_mrs e'"
      | r' where "r' \<in> set (concat (drss t))" "d_pk r' = k" "b = latest_drs r'"
      by (auto simp: latest_pairs_def)
    then show ?thesis
    proof cases
      case 1
      with \<open>r \<in> set (concat (drss t))\<close> \<open>d_pk r = k\<close> dj show ?thesis by blast
    next
      case r2: 2
      with \<open>r \<in> set (concat (drss t))\<close> \<open>d_pk r = k\<close> dd have "r' = r"
        by (auto dest: inj_onD)
      then show ?thesis using r2 \<open>a = latest_drs r\<close> by simp
    qed
  qed
qed

lemma latest_image_in_pairs:
  assumes "k \<in> fst ` latest_pairs t"
  shows "(k, latest_image t k) \<in> latest_pairs t"
proof (cases "in_mrs k t")
  case (Some e)
  then have "e \<in> set (mrs t)" "pk e = k"
    using find_mem[of "\<lambda>e. pk e = k" "mrs t" e] by (simp_all add: in_mrs_def)
  then show ?thesis using Some by (force simp: latest_image_def latest_pairs_def)
next
  case None
  show ?thesis
  proof (cases "in_drs k t")
    case (Some r)
    then have "r \<in> set (concat (drss t))" "d_pk r = k"
      using find_mem[of "\<lambda>r. d_pk r = k" "concat (drss t)" r] by (simp_all add: in_drs_def)
    then show ?thesis using Some None
      unfolding latest_image_def latest_pairs_def by (simp add: image_iff) blast
  next
    case nd: None
    have "k \<notin> fst ` latest_pairs t"
      using in_mrs_None[OF None] in_drs_None[OF nd] by (auto simp: latest_pairs_def)
    then show ?thesis using assms by simp
  qed
qed

lemma latest_image_not_in_pairs:
  assumes "k \<notin> fst ` latest_pairs t"
  shows "latest_image t k = None"
proof -
  have "in_mrs k t = None"
  proof (cases "in_mrs k t")
    case (Some e)
    then have "e \<in> set (mrs t)" "pk e = k"
      using find_mem[of "\<lambda>e. pk e = k" "mrs t" e] by (simp_all add: in_mrs_def)
    then have "k \<in> fst ` latest_pairs t" by (force simp: latest_pairs_def)
    then show ?thesis using assms by simp
  qed simp
  moreover have "in_drs k t = None"
  proof (cases "in_drs k t")
    case (Some r)
    then have "r \<in> set (concat (drss t))" "d_pk r = k"
      using find_mem[of "\<lambda>r. d_pk r = k" "concat (drss t)" r] by (simp_all add: in_drs_def)
    then have "(k, latest_drs r) \<in> latest_pairs t"
      unfolding latest_pairs_def by (simp add: image_iff) blast
    then have "k \<in> fst ` latest_pairs t" by force
    then show ?thesis using assms by simp
  qed simp
  ultimately show ?thesis by (simp add: latest_image_def)
qed

lemma latest_image_eqI:
  assumes "wf_tablet t" and "wf_tablet t'" and "latest_pairs t' = latest_pairs t"
  shows "latest_image t' = latest_image t"
proof
  fix k
  show "latest_image t' k = latest_image t k"
  proof (cases "k \<in> fst ` latest_pairs t")
    case True
    then have "(k, latest_image t k) \<in> latest_pairs t"
      and "(k, latest_image t' k) \<in> latest_pairs t"
      using latest_image_in_pairs[of k t] latest_image_in_pairs[of k t'] assms(3) by simp_all
    then show ?thesis using latest_pairs_unique[OF assms(1)] by blast
  next
    case False
    then show ?thesis
      using latest_image_not_in_pairs[of k t] latest_image_not_in_pairs[of k t'] assms(3)
      by simp
  qed
qed

lemma concat_update_map_eq:
  assumes "i < length ds" and "map f (map g (ds ! i)) = map f (ds ! i)"
  shows "map f (concat (ds[i := map g (ds ! i)])) = map f (concat ds)"
proof -
  have "map (map f) (ds[i := map g (ds ! i)]) = (map (map f) ds)[i := map f (map g (ds ! i))]"
    by (simp only: map_update)
  also have "\<dots> = (map (map f) ds)[i := map f (ds ! i)]" by (simp only: assms(2))
  also have "\<dots> = map (map f) ds" using assms(1) by (simp add: list_update_same_conv)
  finally have "concat (map (map f) (ds[i := map g (ds ! i)])) = concat (map (map f) ds)"
    by simp
  then show ?thesis by (simp only: map_concat)
qed

lemma pairs_map_neutral:
  assumes "neutral g" and "list_all (wf_drs_row c) d"
  shows "map (\<lambda>r. (d_pk r, latest_drs r)) (map g d) = map (\<lambda>r. (d_pk r, latest_drs r)) d"
  using assms by (auto simp: neutral_def list_all_iff)

lemma update_drs_latest_pairs:
  assumes "neutral g" and "wf_tablet t" and "i < length (drss t)"
  shows "latest_pairs (t\<lparr>drss := (drss t)[i := map g (drss t ! i)]\<rparr>) = latest_pairs t"
proof -
  note rows = wf_tablet_rows[OF assms(2,3)]
  have "map (\<lambda>r. (d_pk r, latest_drs r)) (concat ((drss t)[i := map g (drss t ! i)]))
      = map (\<lambda>r. (d_pk r, latest_drs r)) (concat (drss t))"
    by (rule concat_update_map_eq[OF assms(3) pairs_map_neutral[OF assms(1) rows]])
  then have "set (map (\<lambda>r. (d_pk r, latest_drs r)) (concat ((drss t)[i := map g (drss t ! i)])))
      = set (map (\<lambda>r. (d_pk r, latest_drs r)) (concat (drss t)))"
    by simp
  then have "(\<lambda>r. (d_pk r, latest_drs r)) ` set (concat ((drss t)[i := map g (drss t ! i)]))
      = (\<lambda>r. (d_pk r, latest_drs r)) ` set (concat (drss t))"
    by (simp only: set_map)
  then show ?thesis unfolding latest_pairs_def by simp
qed

lemma latest_flush_entry: "latest_drs (flush_entry c e) = latest_mrs e"
  by (simp add: latest_drs_def latest_mrs_def flush_entry_def redo_chain_def Let_def
      apply_deltas_simps)

lemma FlushMRS_latest_pairs: "latest_pairs (FlushMRS t) = latest_pairs t"
proof (cases "mrs t = []")
  case True
  then show ?thesis by (simp add: FlushMRS_def)
next
  case False
  have "(\<lambda>r. (d_pk r, latest_drs r)) ` flush_entry (clock t) ` set (mrs t)
      = (\<lambda>e. (pk e, latest_mrs e)) ` set (mrs t)"
    by (auto simp: image_iff latest_flush_entry flush_entry_def Let_def
        simp flip: latest_flush_entry[of "clock t"])
  then show ?thesis using False
    by (auto simp: FlushMRS_def latest_pairs_def image_Un)
qed

lemma Compact_latest_pairs:
  assumes "wf_tablet t"
  shows "latest_pairs (Compact t) = latest_pairs t"
proof (cases "concat (drss t) = []")
  case True
  then show ?thesis by (simp add: Compact_def)
next
  case False
  let ?all = "concat (drss t)"
  have c: "Compact t = t\<lparr>drss := [sort_key d_pk (map compact_row ?all)]\<rparr>"
    using False by (simp only: Compact_def if_False)
  have rows: "list_all (wf_drs_row (clock t)) ?all" using assms by (simp add: wf_tablet_def)
  have "set (map (\<lambda>r. (d_pk r, latest_drs r)) (map compact_row ?all))
      = set (map (\<lambda>r. (d_pk r, latest_drs r)) ?all)"
    by (simp only: pairs_map_neutral[OF neutral_compact_row rows])
  then have "(\<lambda>r. (d_pk r, latest_drs r)) ` set (map compact_row ?all)
      = (\<lambda>r. (d_pk r, latest_drs r)) ` set ?all"
    by (simp only: set_map)
  then show ?thesis unfolding c latest_pairs_def by simp
qed

lemma maintain_latest:
  assumes "wf_tablet t"
  shows "latest_image (maintain m t) = latest_image t"
proof (rule latest_image_eqI[OF assms maintain_neutral(2)[OF assms]])
  have i: "drss t \<noteq> [] \<Longrightarrow> first_max (map f (drss t)) < length (drss t)" for f
    using first_max_less[of "map f (drss t)"] by simp
  show "latest_pairs (maintain m t) = latest_pairs t"
  proof (cases m)
    case DoFlushMRS
    then show ?thesis by (simp add: FlushMRS_latest_pairs)
  next
    case DoFlushBiggestDMS
    show ?thesis
    proof (cases "drss t = []")
      case True
      then show ?thesis using DoFlushBiggestDMS by (simp add: FlushBiggestDMS_def)
    next
      case False
      from update_drs_latest_pairs[OF neutral_flush_dms_row assms i[OF False]] False
      show ?thesis using DoFlushBiggestDMS
        by (simp add: FlushBiggestDMS_def flush_dms_def Let_def)
    qed
  next
    case (DoCompactWorstDeltas ty)
    show ?thesis
    proof (cases "drss t = []")
      case True
      then show ?thesis using DoCompactWorstDeltas by (simp add: CompactWorstDeltas_def)
    next
      case False
      from update_drs_latest_pairs[OF neutral_minor_compact_row assms i[OF False]]
        update_drs_latest_pairs[OF neutral_major_compact_row assms i[OF False]] False
      show ?thesis using DoCompactWorstDeltas
        by (cases ty)
           (simp_all add: CompactWorstDeltas_def minor_compact_def major_compact_def Let_def)
    qed
  next
    case DoCompact
    then show ?thesis by (simp add: Compact_latest_pairs[OF assms])
  qed
qed

lemma cols_maintain: "num_value_cols (maintain m t) = num_value_cols t"
  by (cases m)
     (simp_all add: FlushMRS_def FlushBiggestDMS_def CompactWorstDeltas_def Compact_def Let_def)


subsection \<open>The shadow model follows the tablet\<close>

lemma abs_ops_snoc:
  "abs_ops n (ws @ [w]) v
     = (case abs_ops n ws v of
          (ss, v') \<Rightarrow> (case abs_row_op n w v' of (s, v'') \<Rightarrow> (ss @ [s], v'')))"
  by (induction ws arbitrary: v) (auto split: prod.splits)

lemma abs_row_op_other:
  "abs_row_op n w v = (s, v') \<Longrightarrow> k \<noteq> write_key w \<Longrightarrow> v' k = v k"
  by (auto simp: abs_row_op_def Let_def split: if_splits write_kind.splits option.splits)

lemma view_cols_abs_row_op:
  assumes "view_cols n v" and "abs_row_op n w v = (s, v')"
  shows "view_cols n v'"
  using assms
  by (auto simp: abs_row_op_def Let_def view_cols_def length_apply_changelist
      split: if_splits write_kind.splits option.splits)

lemma view_cols_abs_ops:
  "view_cols n v \<Longrightarrow> view_cols n (snd (abs_ops n ws v))"
proof (induction ws arbitrary: v)
  case Nil
  then show ?case by simp
next
  case (Cons w ws)
  obtain s v1 where a: "abs_row_op n w v = (s, v1)" by (cases "abs_row_op n w v")
  from Cons.IH[OF view_cols_abs_row_op[OF Cons.prems a]] a show ?case
    by (auto split: prod.splits)
qed

text \<open>
  Buffering one more operation on key \<open>k\<close>, with \<open>p\<close> as the new pending value of the key:
  the shadow model still agrees, provided \<open>p\<close> is the row expected after the operation
  whenever the operation succeeds.
\<close>

lemma shadow_append:
  assumes inv: "shadow_agrees st"
    and k: "0 \<le> k" "nat k < length (cur_val st)"
    and wk: "write_key w = k"
    and step: "\<And>v' v''. view_cols (num_value_cols (the_tablet st)) v' \<Longrightarrow>
        abs_row_op (num_value_cols (the_tablet st)) w v' = (OK, v'') \<Longrightarrow>
        pending_val st ! nat k = expected_row (num_value_cols (the_tablet st)) k (v' k) \<Longrightarrow>
        p = expected_row (num_value_cols (the_tablet st)) k (v'' k)"
  shows "shadow_agrees (st\<lparr>pending_val := (pending_val st)[nat k := p],
                            the_session := the_session st @ [w], next_i := j\<rparr>)"
proof -
  let ?t = "the_tablet st" and ?n = "num_value_cols (the_tablet st)"
  let ?v = "latest_image (the_tablet st)"
  obtain ss v' where a: "abs_ops ?n (the_session st) ?v = (ss, v')"
    by (cases "abs_ops ?n (the_session st) ?v")
  obtain s v'' where b: "abs_row_op ?n w v' = (s, v'')" by (cases "abs_row_op ?n w v'")
  have ab: "abs_ops ?n (the_session st @ [w]) ?v = (ss @ [s], v'')"
    by (simp add: abs_ops_snoc a b)
  have wf: "wf_tablet ?t" and vc: "view_cols ?n ?v"
    and len: "length (pending_val st) = length (cur_val st)"
    and cur: "\<forall>k. 0 \<le> k \<and> nat k < length (cur_val st) \<longrightarrow>
               cur_val st ! nat k = expected_row ?n k (?v k)"
    and pend: "list_all (\<lambda>s. s = OK) ss \<longrightarrow>
               (\<forall>k. 0 \<le> k \<and> nat k < length (cur_val st) \<longrightarrow>
                  pending_val st ! nat k = expected_row ?n k (v' k))"
    and fl: "expect_eq_failures st = []"
    using inv a by (simp_all add: shadow_agrees_def Let_def)
  have vc': "view_cols ?n v'" using view_cols_abs_ops[OF vc, of "the_session st"] a by simp
  have new: "list_all (\<lambda>s. s = OK) (ss @ [s]) \<longrightarrow>
      (\<forall>k1. 0 \<le> k1 \<and> nat k1 < length (cur_val st) \<longrightarrow>
         (pending_val st)[nat k := p] ! nat k1 = expected_row ?n k1 (v'' k1))"
  proof (intro impI allI)
    fix k1 assume ok: "list_all (\<lambda>s. s = OK) (ss @ [s])"
      and k1: "0 \<le> k1 \<and> nat k1 < length (cur_val st)"
    have sok: "s = OK" and ssok: "list_all (\<lambda>s. s = OK) ss" using ok by simp_all
    show "(pending_val st)[nat k := p] ! nat k1 = expected_row ?n k1 (v'' k1)"
    proof (cases "k1 = k")
      case True
      have "pending_val st ! nat k = expected_row ?n k (v' k)" using pend ssok k by simp
      from step[OF vc' b[unfolded sok] this] True k len show ?thesis by simp
    next
      case False
      then have "nat k1 \<noteq> nat k" using k1 k by auto
      moreover have "v'' k1 = v' k1" using abs_row_op_other[OF b, of k1] False wk by simp
      ultimately show ?thesis using pend ssok k1 by simp
    qed
  qed
  show ?thesis
    using wf vc len cur fl new ab by (simp add: shadow_agrees_def Let_def)
qed

lemma shadow_agrees_tablet:
  assumes "shadow_agrees st" and "wf_tablet t'"
    and "latest_image t' = latest_image (the_tablet st)"
    and "num_value_cols t' = num_value_cols (the_tablet st)"
  shows "shadow_agrees (st\<lparr>the_tablet := t'\<rparr>)"
  using assms by (simp add: shadow_agrees_def Let_def)

lemma valid_set_columns: "valid_columns n (set_columns c) = (c = Unset \<or> n > 0)"
  by (cases c) (simp_all add: valid_columns_def set_columns_def)

lemma new_row_simps:
  "apply_changelist (set_columns Unset) cols = cols"
  "n > 0 \<Longrightarrow> length cols = n \<Longrightarrow> apply_changelist (set_columns SetNull) cols ! 0 = None"
  "n > 0 \<Longrightarrow> length cols = n \<Longrightarrow> apply_changelist (set_columns (SetInt32 x)) cols ! 0 = Some x"
  by (simp_all add: apply_changelist_def set_columns_def)

lemma expect_insert_value:
  assumes "view_cols n v'"
    and "abs_row_op n \<lparr>kind = KuduInsert, write_key = k, write_val = c\<rparr> v' = (OK, v'')"
  shows "expected_row n k (v'' k)
       = Some \<lparr>key = k, val = (case c of Unset \<Rightarrow> None | SetNull \<Rightarrow> None | SetInt32 x \<Rightarrow> Some x)\<rparr>"
  using assms
  by (cases c)
     (auto simp: abs_row_op_def Let_def expected_row_def valid_set_columns new_row_simps
        split: if_splits option.splits)

lemma expect_update_value:
  assumes "view_cols n v'" and "c \<noteq> Unset"
    and "abs_row_op n \<lparr>kind = KuduUpdate, write_key = k, write_val = c\<rparr> v' = (OK, v'')"
  shows "expected_row n k (v'' k)
       = Some \<lparr>key = k, val = (case c of Unset \<Rightarrow> None | SetNull \<Rightarrow> None | SetInt32 x \<Rightarrow> Some x)\<rparr>"
  using assms
  by (cases c)
     (auto simp: abs_row_op_def Let_def expected_row_def valid_set_columns new_row_simps
        view_cols_def split: if_splits option.splits)

lemma expect_upsert_value:
  assumes "view_cols n v'" and "c \<noteq> Unset"
    and "abs_row_op n \<lparr>kind = KuduUpsert, write_key = k, write_val = c\<rparr> v' = (OK, v'')"
  shows "expected_row n k (v'' k)
       = Some \<lparr>key = k, val = (case c of Unset \<Rightarrow> None | SetNull \<Rightarrow> None | SetInt32 x \<Rightarrow> Some x)\<rparr>"
  using assms
  by (cases c)
     (auto simp: abs_row_op_def Let_def expected_row_def valid_set_columns new_row_simps
        view_cols_def split: if_splits option.splits)

lemma expect_upsert_pk_only:
  assumes "view_cols n v'"
    and "abs_row_op n \<lparr>kind = KuduUpsert, write_key = k, write_val = Unset\<rparr> v' = (OK, v'')"
    and "old = expected_row n k (v' k)"
  shows "expected_row n k (v'' k)
       = Some \<lparr>key = k, val = (case old of Some r \<Rightarrow> val r | None \<Rightarrow> None)\<rparr>"
  using assms
  by (auto simp: abs_row_op_def Let_def expected_row_def valid_set_columns new_row_simps
        split: if_splits option.splits)

lemma expect_delete:
  assumes "abs_row_op n \<lparr>kind = KuduDelete, write_key = k, write_val = Unset\<rparr> v' = (OK, v'')"
  shows "expected_row n k (v'' k) = None"
  using assms
  by (auto simp: abs_row_op_def Let_def expected_row_def split: if_splits option.splits)

subsection \<open>Every operation of a run keeps the agreement\<close>

lemma expect_current_agrees:
  assumes "shadow_agrees st"
    and "IsMutation (op_type test_op) \<Longrightarrow>
           0 \<le> op_val test_op \<and> nat (op_val test_op) < length (cur_val st)"
  shows "shadow_agrees (expect_current test_op st)"
    and "cur_val (expect_current test_op st) = cur_val st"
    and "pending_val (expect_current test_op st) = pending_val st"
proof -
  let ?t = "the_tablet st" and ?k = "op_val test_op"
  have wf: "wf_tablet ?t" using assms(1) by (simp add: shadow_agrees_def Let_def)
  have g: "GetRow ?k ?t = (expected_row (num_value_cols ?t) ?k (latest_image ?t ?k), tick ?t)"
    by (rule GetRow_latest[OF wf])
  have same: "IsMutation (op_type test_op) \<Longrightarrow>
      cur_val st ! nat ?k = expected_row (num_value_cols ?t) ?k (latest_image ?t ?k)"
    using assms by (simp add: shadow_agrees_def Let_def)
  have e: "expect_current test_op st
      = (if IsMutation (op_type test_op) then st\<lparr>the_tablet := tick ?t\<rparr> else st)"
    using same by (simp add: expect_current_def g)
  have "shadow_agrees (st\<lparr>the_tablet := tick ?t\<rparr>)"
    by (rule shadow_agrees_tablet[OF assms(1) wf_tablet_tick[OF wf]])
       (simp_all add: latest_image_tick, simp add: tick_def)
  then show "shadow_agrees (expect_current test_op st)" using assms(1) e by simp
  show "cur_val (expect_current test_op st) = cur_val st" using e by simp
  show "pending_val (expect_current test_op st) = pending_val st" using e by simp
qed

lemma insert_or_upsert_agrees:
  assumes "shadow_agrees st"
    and k: "0 \<le> op_val test_op" "nat (op_val test_op) < length (cur_val st)"
    and r: "run_insert_or_upsert test_op st = Inr st'"
  shows "shadow_agrees st' \<and> length (cur_val st') = length (cur_val st)"
proof -
  let ?k = "op_val test_op" and ?n = "num_value_cols (the_tablet st)"
  let ?i = "next_i st" and ?old = "pending_val st ! nat (op_val test_op)"
  let ?c = "if ?i AND 1 \<noteq> 0 then SetNull else SetInt32 ?i"
  let ?valrow = "\<lparr>key = ?k, val = (if ?i AND 1 \<noteq> 0 then None else Some ?i)\<rparr>"
  have cval: "(case ?c of Unset \<Rightarrow> None | SetNull \<Rightarrow> None | SetInt32 x \<Rightarrow> Some x)
      = (if ?i AND 1 \<noteq> 0 then None else Some ?i)" by simp
  have cne: "?c \<noteq> Unset" by simp
  show ?thesis
  proof (cases "op_type test_op")
    case TEST_INSERT
    let ?w = "\<lparr>kind = KuduInsert, write_key = ?k, write_val = ?c\<rparr>"
    have st': "st' = st\<lparr>pending_val := (pending_val st)[nat ?k := Some ?valrow],
                        the_session := the_session st @ [?w], next_i := ?i + 1\<rparr>"
      using r TEST_INSERT by (auto simp: run_insert_or_upsert_def InsertOrUpsertRow_def Let_def)
    have "shadow_agrees (st\<lparr>pending_val := (pending_val st)[nat ?k := Some ?valrow],
                        the_session := the_session st @ [?w], next_i := ?i + 1\<rparr>)"
    proof (rule shadow_append[OF assms(1) k])
      show "write_key ?w = ?k" by simp
    next
      fix v' v'' assume "view_cols ?n v'" "abs_row_op ?n ?w v' = (OK, v'')"
      from expect_insert_value[OF this] show "Some ?valrow = expected_row ?n ?k (v'' ?k)"
        unfolding cval by simp
    qed
    then show ?thesis using st' by simp
  next
    case TEST_UPSERT
    let ?w = "\<lparr>kind = KuduUpsert, write_key = ?k, write_val = ?c\<rparr>"
    have st': "st' = st\<lparr>pending_val := (pending_val st)[nat ?k := Some ?valrow],
                        the_session := the_session st @ [?w], next_i := ?i + 1\<rparr>"
      using r TEST_UPSERT by (auto simp: run_insert_or_upsert_def InsertOrUpsertRow_def Let_def)
    have "shadow_agrees (st\<lparr>pending_val := (pending_val st)[nat ?k := Some ?valrow],
                        the_session := the_session st @ [?w], next_i := ?i + 1\<rparr>)"
    proof (rule shadow_append[OF assms(1) k])
      show "write_key ?w = ?k" by simp
    next
      fix v' v'' assume "view_cols ?n v'" "abs_row_op ?n ?w v' = (OK, v'')"
      from expect_upsert_value[OF this(1) cne this(2)]
      show "Some ?valrow = expected_row ?n ?k (v'' ?k)"
        unfolding cval by simp
    qed
    then show ?thesis using st' by simp
  next
    case TEST_INSERT_PK_ONLY
    let ?w = "\<lparr>kind = KuduInsert, write_key = ?k, write_val = Unset\<rparr>"
    let ?row = "\<lparr>key = ?k, val = None\<rparr>"
    have st': "st' = st\<lparr>pending_val := (pending_val st)[nat ?k := Some ?row],
                        the_session := the_session st @ [?w], next_i := ?i + 1\<rparr>"
      using r TEST_INSERT_PK_ONLY
      by (auto simp: run_insert_or_upsert_def InsertOrUpsertRow_def Let_def)
    have "shadow_agrees (st\<lparr>pending_val := (pending_val st)[nat ?k := Some ?row],
                        the_session := the_session st @ [?w], next_i := ?i + 1\<rparr>)"
    proof (rule shadow_append[OF assms(1) k])
      show "write_key ?w = ?k" by simp
    next
      fix v' v'' assume "view_cols ?n v'" "abs_row_op ?n ?w v' = (OK, v'')"
      from expect_insert_value[OF this] show "Some ?row = expected_row ?n ?k (v'' ?k)"
        by simp
    qed
    then show ?thesis using st' by simp
  next
    case TEST_UPSERT_PK_ONLY
    let ?w = "\<lparr>kind = KuduUpsert, write_key = ?k, write_val = Unset\<rparr>"
    let ?row = "\<lparr>key = ?k, val = (case ?old of Some r \<Rightarrow> val r | None \<Rightarrow> None)\<rparr>"
    have st': "st' = st\<lparr>pending_val := (pending_val st)[nat ?k := Some ?row],
                        the_session := the_session st @ [?w], next_i := ?i + 1\<rparr>"
      using r TEST_UPSERT_PK_ONLY
      by (auto simp: run_insert_or_upsert_def InsertOrUpsertRow_def Let_def)
    have "shadow_agrees (st\<lparr>pending_val := (pending_val st)[nat ?k := Some ?row],
                        the_session := the_session st @ [?w], next_i := ?i + 1\<rparr>)"
    proof (rule shadow_append[OF assms(1) k])
      show "write_key ?w = ?k" by simp
    next
      fix v' v'' assume "view_cols ?n v'" "abs_row_op ?n ?w v' = (OK, v'')"
        "?old = expected_row ?n ?k (v' ?k)"
      from expect_upsert_pk_only[OF this] show "Some ?row = expected_row ?n ?k (v'' ?k)"
        by simp
    qed
    then show ?thesis using st' by simp
  qed (use r in \<open>auto simp: run_insert_or_upsert_def InsertOrUpsertRow_def Let_def\<close>)
qed

lemma mutate_times_agrees:
  "shadow_agrees st \<Longrightarrow> 0 \<le> k \<Longrightarrow> nat k < length (cur_val st) \<Longrightarrow>
   shadow_agrees (mutate_times n k st)
   \<and> length (cur_val (mutate_times n k st)) = length (cur_val st)"
proof (induction n arbitrary: st)
  case 0
  then show ?case by simp
next
  case (Suc n)
  let ?i = "next_i st" and ?nc = "num_value_cols (the_tablet st)"
  let ?c = "if ?i AND 1 \<noteq> 0 then SetNull else SetInt32 ?i"
  let ?row = "\<lparr>key = k, val = (if ?i AND 1 \<noteq> 0 then None else Some ?i)\<rparr>"
  let ?w = "\<lparr>kind = KuduUpdate, write_key = k, write_val = ?c\<rparr>"
  let ?st1 = "st\<lparr>pending_val := (pending_val st)[nat k := Some ?row],
                 the_session := the_session st @ [?w], next_i := ?i + 1\<rparr>"
  have cval: "(case ?c of Unset \<Rightarrow> None | SetNull \<Rightarrow> None | SetInt32 x \<Rightarrow> Some x)
      = (if ?i AND 1 \<noteq> 0 then None else Some ?i)" by simp
  have cne: "?c \<noteq> Unset" by simp
  have m: "mutate_times (Suc n) k st = mutate_times n k ?st1"
    by (simp add: MutateRow_def Let_def)
  have a: "shadow_agrees ?st1"
  proof (rule shadow_append[OF Suc.prems])
    show "write_key ?w = k" by simp
  next
    fix v' v'' assume "view_cols ?nc v'" "abs_row_op ?nc ?w v' = (OK, v'')"
    from expect_update_value[OF this(1) cne this(2)]
    show "Some ?row = expected_row ?nc k (v'' k)" unfolding cval by simp
  qed
  from Suc.IH[OF a Suc.prems(2)] Suc.prems(3) show ?case unfolding m by simp
qed

lemma delete_agrees:
  assumes "shadow_agrees st" and "0 \<le> k" and "nat k < length (cur_val st)"
  shows "shadow_agrees
           (st\<lparr>pending_val := (pending_val st)[nat k := None],
               the_session := the_session st
                 @ [\<lparr>kind = KuduDelete, write_key = k, write_val = Unset\<rparr>]\<rparr>)"
proof -
  let ?w = "\<lparr>kind = KuduDelete, write_key = k, write_val = Unset\<rparr>"
  have "shadow_agrees (st\<lparr>pending_val := (pending_val st)[nat k := None],
                        the_session := the_session st @ [?w], next_i := next_i st\<rparr>)"
  proof (rule shadow_append[OF assms])
    show "write_key ?w = k" by simp
  next
    fix v' v'' assume "abs_row_op (num_value_cols (the_tablet st)) ?w v' = (OK, v'')"
    from expect_delete[OF this]
    show "None = expected_row (num_value_cols (the_tablet st)) k (v'' k)" by simp
  qed
  then show ?thesis by simp
qed

lemma flush_agrees:
  assumes inv: "shadow_agrees st" and f: "FlushSessionOrDie st = Inr st1"
  shows "shadow_agrees (st1\<lparr>cur_val := pending_val st1\<rparr>)"
    and "length (pending_val st1) = length (cur_val st)"
    and "saved_vals st1 = saved_vals st"
    and "the_session st1 = []"
proof -
  let ?t = "the_tablet st" and ?n = "num_value_cols (the_tablet st)"
  let ?v = "latest_image (the_tablet st)"
  obtain ss t' where sf: "session_flush (the_session st) ?t = (ss, t')"
    by (cases "session_flush (the_session st) ?t")
  have ok: "list_all (\<lambda>s. s = OK) ss" and st1: "st1 = st\<lparr>the_tablet := t', the_session := []\<rparr>"
    using f sf by (auto simp: FlushSessionOrDie_def split: if_splits)
  have wf: "wf_tablet ?t" and vc: "view_cols ?n ?v"
    and len: "length (pending_val st) = length (cur_val st)"
    and pend: "list_all (\<lambda>s. s = OK) (fst (abs_ops ?n (the_session st) ?v)) \<longrightarrow>
               (\<forall>k. 0 \<le> k \<and> nat k < length (cur_val st) \<longrightarrow>
                  pending_val st ! nat k
                    = expected_row ?n k (snd (abs_ops ?n (the_session st) ?v) k))"
    and fl: "expect_eq_failures st = []"
    using inv by (simp_all add: shadow_agrees_def Let_def)
  show "length (pending_val st1) = length (cur_val st)" using st1 len by simp
  show "saved_vals st1 = saved_vals st" using st1 by simp
  show "the_session st1 = []" using st1 by simp
  have ab: "abs_ops ?n (the_session st) ?v = (ss, latest_image t')"
    and wf': "wf_tablet t'" and n': "num_value_cols t' = ?n"
  proof -
    show "abs_ops ?n (the_session st) ?v = (ss, latest_image t')"
    proof (cases "the_session st = []")
      case True
      then show ?thesis using sf by (simp add: session_flush_def)
    next
      case False
      then have "apply_ops (clock ?t + 1) (the_session st) (tick ?t) = (ss, t')"
        using sf by (simp add: session_flush_def)
      from refine_ops[OF this] show ?thesis by (simp add: latest_image_tick) (simp add: tick_def)
    qed
    have "t' = snd (session_flush (the_session st) ?t)" using sf by simp
    then show "wf_tablet t'" using wf_session_flush[OF wf] by simp
    show "num_value_cols t' = ?n"
    proof (cases "the_session st = []")
      case True
      then show ?thesis using sf by (simp add: session_flush_def)
    next
      case False
      then have "t' = snd (apply_ops (clock (tick ?t)) (the_session st) (tick ?t))"
        using sf by (simp add: session_flush_def tick_def)
      then show ?thesis
        using apply_ops_props[OF wf_tablet_tick[OF wf] refl, of "the_session st"]
        by (simp add: tick_def)
    qed
  qed
  have vc': "view_cols ?n (latest_image t')"
    using view_cols_abs_ops[OF vc, of "the_session st"] ab by simp
  have p: "\<forall>k. 0 \<le> k \<and> nat k < length (cur_val st) \<longrightarrow>
      pending_val st ! nat k = expected_row ?n k (latest_image t' k)"
    using pend ab ok by simp
  show "shadow_agrees (st1\<lparr>cur_val := pending_val st1\<rparr>)"
    using wf' n' vc' p len fl unfolding st1 by (simp add: shadow_agrees_def Let_def)
qed

lemma maintain_agrees:
  assumes "shadow_agrees st"
  shows "shadow_agrees (st\<lparr>the_tablet := maintain m (the_tablet st)\<rparr>)"
proof -
  have wf: "wf_tablet (the_tablet st)" using assms by (simp add: shadow_agrees_def Let_def)
  show ?thesis
    by (rule shadow_agrees_tablet[OF assms maintain_neutral(2)[OF wf] maintain_latest[OF wf]
          cols_maintain])
qed

lemma run_op_agrees:
  assumes inv: "shadow_agrees st" and r: "run_op update_multiplier test_op st = Inr st'"
  shows "shadow_agrees st' \<and> length (cur_val st') = length (cur_val st)"
proof -
  let ?k = "op_val test_op"
  have rng: "IsMutation (op_type test_op) \<Longrightarrow> 0 \<le> ?k \<and> nat ?k < length (cur_val st)"
    using r by (auto simp: run_op_def Let_def split: if_splits)
  note ec = expect_current_agrees[OF inv rng]
  let ?st = "expect_current test_op st"
  have body: "run_op update_multiplier test_op st
      = (case op_type test_op of
           TEST_INSERT \<Rightarrow> run_insert_or_upsert test_op ?st
         | TEST_INSERT_PK_ONLY \<Rightarrow> run_insert_or_upsert test_op ?st
         | TEST_UPSERT \<Rightarrow> run_insert_or_upsert test_op ?st
         | TEST_UPSERT_PK_ONLY \<Rightarrow> run_insert_or_upsert test_op ?st
         | TEST_UPDATE \<Rightarrow> Inr (mutate_times (nat update_multiplier) ?k ?st)
         | TEST_DELETE \<Rightarrow>
             (case DeleteRow ?k (the_session ?st) of
                (row, session') \<Rightarrow>
                  Inr (?st\<lparr>pending_val := (pending_val ?st)[nat ?k := row],
                          the_session := session'\<rparr>))
         | TEST_FLUSH_OPS \<Rightarrow>
             (case FlushSessionOrDie ?st of
                Inl f \<Rightarrow> Inl f
              | Inr st1 \<Rightarrow>
                  (let st2 = st1\<lparr>cur_val := pending_val st1\<rparr>;
                       current_time = clock (the_tablet st2)
                   in Inr (st2\<lparr>saved_vals :=
                                 map_assign current_time (cur_val st2) (saved_vals st2)\<rparr>)))
         | TEST_FLUSH_TABLET \<Rightarrow> Inr (?st\<lparr>the_tablet := FlushMRS (the_tablet ?st)\<rparr>)
         | TEST_FLUSH_DELTAS \<Rightarrow> Inr (?st\<lparr>the_tablet := FlushBiggestDMS (the_tablet ?st)\<rparr>)
         | TEST_MAJOR_COMPACT_DELTAS \<Rightarrow>
             Inr (?st\<lparr>the_tablet := CompactWorstDeltas MAJOR_DELTA_COMPACTION (the_tablet ?st)\<rparr>)
         | TEST_MINOR_COMPACT_DELTAS \<Rightarrow>
             Inr (?st\<lparr>the_tablet := CompactWorstDeltas MINOR_DELTA_COMPACTION (the_tablet ?st)\<rparr>)
         | TEST_COMPACT_TABLET \<Rightarrow> Inr (?st\<lparr>the_tablet := Compact (the_tablet ?st)\<rparr>)
         | TEST_RESTART_TS \<Rightarrow> Inr (?st\<lparr>the_tablet := Restart (the_tablet ?st)\<rparr>)
         | TEST_SCAN_AT_TIMESTAMP \<Rightarrow> CheckScanAtTimestamp ?k ?st)"
    using r by (auto simp: run_op_def Let_def split: if_splits)
  have wf: "wf_tablet (the_tablet ?st)" using ec(1) by (simp add: shadow_agrees_def Let_def)
  have mt: "shadow_agrees (?st\<lparr>the_tablet := maintain m (the_tablet ?st)\<rparr>)" for m
    by (rule maintain_agrees[OF ec(1)])
  show ?thesis
  proof (cases "op_type test_op")
    case TEST_INSERT
    then show ?thesis
      using insert_or_upsert_agrees[OF ec(1), of test_op st'] rng r ec(2) body by simp
  next
    case TEST_INSERT_PK_ONLY
    then show ?thesis
      using insert_or_upsert_agrees[OF ec(1), of test_op st'] rng r ec(2) body by simp
  next
    case TEST_UPSERT
    then show ?thesis
      using insert_or_upsert_agrees[OF ec(1), of test_op st'] rng r ec(2) body by simp
  next
    case TEST_UPSERT_PK_ONLY
    then show ?thesis
      using insert_or_upsert_agrees[OF ec(1), of test_op st'] rng r ec(2) body by simp
  next
    case TEST_UPDATE
    then show ?thesis
      using mutate_times_agrees[OF ec(1), of ?k "nat update_multiplier"] rng r ec(2) body
      by simp
  next
    case TEST_DELETE
    then have "st' = ?st\<lparr>pending_val := (pending_val ?st)[nat ?k := None],
                 the_session := the_session ?st
                   @ [\<lparr>kind = KuduDelete, write_key = ?k, write_val = Unset\<rparr>]\<rparr>"
      using r body by (simp add: DeleteRow_def)
    then show ?thesis
      using delete_agrees[OF ec(1), of ?k] rng TEST_DELETE ec(2) by simp
  next
    case TEST_FLUSH_OPS
    then obtain st1 where f: "FlushSessionOrDie ?st = Inr st1"
      and st': "st' = (st1\<lparr>cur_val := pending_val st1\<rparr>)
                 \<lparr>saved_vals := map_assign (clock (the_tablet st1)) (pending_val st1)
                                  (saved_vals st1)\<rparr>"
      using r body by (auto simp: Let_def split: sum.splits)
    from flush_agrees[OF ec(1) f] ec(2) show ?thesis
      unfolding st' by (simp add: shadow_agrees_def Let_def)
  next
    case TEST_FLUSH_TABLET
    then show ?thesis using mt[of DoFlushMRS] r ec(2) body by auto
  next
    case TEST_FLUSH_DELTAS
    then show ?thesis using mt[of DoFlushBiggestDMS] r ec(2) body by auto
  next
    case TEST_MINOR_COMPACT_DELTAS
    then show ?thesis
      using mt[of "DoCompactWorstDeltas MINOR_DELTA_COMPACTION"] r ec(2) body by auto
  next
    case TEST_MAJOR_COMPACT_DELTAS
    then show ?thesis
      using mt[of "DoCompactWorstDeltas MAJOR_DELTA_COMPACTION"] r ec(2) body by auto
  next
    case TEST_COMPACT_TABLET
    then show ?thesis using mt[of DoCompact] r ec(2) body by auto
  next
    case TEST_RESTART_TS
    then show ?thesis using ec(1,2) r body by (auto simp: Restart_def)
  next
    case TEST_SCAN_AT_TIMESTAMP
    then have "st' = ?st\<lparr>the_tablet := tick (the_tablet ?st)\<rparr>"
      using r body
      by (auto simp: CheckScanAtTimestamp_def open_snapshot_scan_def Let_def split: if_splits)
    moreover have "shadow_agrees (?st\<lparr>the_tablet := tick (the_tablet ?st)\<rparr>)"
      by (rule shadow_agrees_tablet[OF ec(1) wf_tablet_tick[OF wf]])
         (simp_all add: latest_image_tick, simp add: tick_def)
    ultimately show ?thesis using ec(2) by simp
  qed
qed

lemma run_ops_agrees:
  "shadow_agrees st \<Longrightarrow> run_ops update_multiplier test_ops st = Inr st' \<Longrightarrow>
   shadow_agrees st' \<and> length (cur_val st') = length (cur_val st)"
proof (induction test_ops arbitrary: st)
  case Nil
  then show ?case by simp
next
  case (Cons test_op test_ops)
  from Cons.prems(2) obtain st1 where a: "run_op update_multiplier test_op st = Inr st1"
    and b: "run_ops update_multiplier test_ops st1 = Inr st'"
    by (auto split: sum.splits)
  from run_op_agrees[OF Cons.prems(1) a] Cons.IH[OF _ b] show ?case by simp
qed

lemma latest_image_new_tablet: "latest_image (new_tablet n) k = None"
  by (simp add: latest_image_def in_mrs_def in_drs_def new_tablet_def)

lemma shadow_agrees_init:
  "shadow_agrees \<lparr>the_tablet = new_tablet n, the_session = [],
       cur_val = replicate len None, pending_val = replicate len None,
       next_i = 0, saved_vals = [], expect_eq_failures = []\<rparr>"
  by (simp add: shadow_agrees_def Let_def wf_new_tablet view_cols_def latest_image_new_tablet
      expected_row_def)

lemma run_ops_append:
  "run_ops update_multiplier (pre @ post) st =
     (case run_ops update_multiplier pre st of
        Inl f \<Rightarrow> Inl f
      | Inr st' \<Rightarrow> run_ops update_multiplier post st')"
  by (induction pre arbitrary: st) (auto split: sum.splits)

lemma run_op_flush_ops_session:
  assumes "run_op update_multiplier test_op st = Inr st'"
    and "op_type test_op = TEST_FLUSH_OPS"
  shows "the_session st' = [] \<and> cur_val st' = pending_val st'"
  using assms
  by (auto simp: run_op_def Let_def FlushSessionOrDie_def split: if_splits sum.splits prod.splits)

lemma run_ops_flush_ops_session:
  assumes "run_ops update_multiplier pre st = Inr st'"
    and "pre \<noteq> []" and "op_type (last pre) = TEST_FLUSH_OPS"
  shows "the_session st' = [] \<and> cur_val st' = pending_val st'"
proof -
  from assms(2) obtain xs x where pre: "pre = xs @ [x]" by (metis append_butlast_last_id)
  with assms(1) obtain st1 where "run_op update_multiplier x st1 = Inr st'"
    by (auto simp: run_ops_append split: sum.splits)
  then show ?thesis using run_op_flush_ops_session assms(3) pre by simp
qed

text \<open>
  Claim C3. At every point of a run of \<open>RunFuzzCase\<close> on a new tablet, that is in the
  state \<open>st\<close> reached after any prefix \<open>pre\<close> of the sequence, no \<open>EXPECT_EQ\<close> of the
  current value with \<open>GetRow\<close> has failed, and \<open>GetRow(k)\<close> returns for every key \<open>k\<close> of
  the keyspace exactly the entry \<open>k\<close> of \<open>cur_val\<close>, the value that the most recent
  \<open>TEST_FLUSH_OPS\<close> committed, or none when the row was deleted or never inserted. When
  no operation is buffered \<open>cur_val\<close> is \<open>pending_val\<close>; in particular, when the last
  operation run was \<open>TEST_FLUSH_OPS\<close>, the batch has committed, nothing is buffered, and
  \<open>GetRow\<close> returns for every key the latest value written to it.
\<close>

theorem read_your_writes:
  assumes "RunFuzzCase keyspace_size (new_tablet n) (pre @ post) update_multiplier = Inr st_end"
  shows "\<exists>st. run_ops update_multiplier pre
                 \<lparr>the_tablet = new_tablet n, the_session = [],
                  cur_val = replicate (nat keyspace_size) None,
                  pending_val = replicate (nat keyspace_size) None,
                  next_i = 0, saved_vals = [], expect_eq_failures = []\<rparr> = Inr st
            \<and> expect_eq_failures st = []
            \<and> (\<forall>k. 0 \<le> k \<and> k < keyspace_size \<longrightarrow>
                  fst (GetRow k (the_tablet st)) = cur_val st ! nat k)
            \<and> (the_session st = [] \<longrightarrow> cur_val st = pending_val st)
            \<and> (pre \<noteq> [] \<and> op_type (last pre) = TEST_FLUSH_OPS \<longrightarrow>
                  the_session st = []
                  \<and> (\<forall>k. 0 \<le> k \<and> k < keyspace_size \<longrightarrow>
                        fst (GetRow k (the_tablet st)) = pending_val st ! nat k))"
proof -
  let ?init = "\<lparr>the_tablet = new_tablet n, the_session = [],
       cur_val = replicate (nat keyspace_size) None,
       pending_val = replicate (nat keyspace_size) None,
       next_i = 0, saved_vals = [], expect_eq_failures = []\<rparr>"
  from assms have "run_ops update_multiplier (pre @ post) ?init = Inr st_end"
    by (auto simp: RunFuzzCase_def split: sum.splits)
  then obtain st where r: "run_ops update_multiplier pre ?init = Inr st"
    by (auto simp: run_ops_append split: sum.splits)
  from run_ops_agrees[OF shadow_agrees_init r]
  have a: "shadow_agrees st" and l: "length (cur_val st) = nat keyspace_size" by simp_all
  have wf: "wf_tablet (the_tablet st)" using a by (simp add: shadow_agrees_def Let_def)
  have g: "\<forall>k. 0 \<le> k \<and> k < keyspace_size \<longrightarrow>
             fst (GetRow k (the_tablet st)) = cur_val st ! nat k"
    using a l by (auto simp: shadow_agrees_def Let_def GetRow_latest[OF wf])
  have e: "expect_eq_failures st = []"
    and s: "the_session st = [] \<longrightarrow> cur_val st = pending_val st"
    using a by (simp_all add: shadow_agrees_def Let_def)
  have f: "pre \<noteq> [] \<and> op_type (last pre) = TEST_FLUSH_OPS \<longrightarrow>
             the_session st = [] \<and> cur_val st = pending_val st"
    using run_ops_flush_ops_session[OF r] by blast
  show ?thesis using r e g s f by (intro exI[of _ st]) auto
qed

theorem read_your_writes_witness:
  "(case run_ops 1 [TestOp TEST_INSERT 0, TestOp TEST_FLUSH_OPS 0, TestOp TEST_UPDATE 0,
                    TestOp TEST_FLUSH_TABLET 0, TestOp TEST_FLUSH_OPS 0]
           \<lparr>the_tablet = new_tablet 1, the_session = [],
            cur_val = replicate (nat 2) None, pending_val = replicate (nat 2) None,
            next_i = 0, saved_vals = [], expect_eq_failures = []\<rparr> of
      Inl f \<Rightarrow> False
    | Inr st \<Rightarrow>
        expect_eq_failures st = [] \<and> the_session st = []
        \<and> fst (GetRow 0 (the_tablet st)) = cur_val st ! nat 0
        \<and> fst (GetRow 1 (the_tablet st)) = cur_val st ! nat 1
        \<and> fst (GetRow 0 (the_tablet st)) = pending_val st ! nat 0
        \<and> cur_val st = pending_val st
        \<and> cur_val st = [Some \<lparr>key = 0, val = None\<rparr>, None])"
proof -
  let ?ops = "[TestOp TEST_INSERT 0, TestOp TEST_FLUSH_OPS 0, TestOp TEST_UPDATE 0,
               TestOp TEST_FLUSH_TABLET 0, TestOp TEST_FLUSH_OPS 0]"
  have "\<exists>st_end. RunFuzzCase 2 (new_tablet 1) (?ops @ []) 1 = Inr st_end
          \<and> cur_val st_end = [Some \<lparr>key = 0, val = None\<rparr>, None]"
    by (simp add: engine_eval maintenance_eval MutateRow_def
        numeral_2_eq_2)
  then obtain st_end where g: "RunFuzzCase 2 (new_tablet 1) (?ops @ []) 1 = Inr st_end"
    and c: "cur_val st_end = [Some \<lparr>key = 0, val = None\<rparr>, None]" by blast
  from g have r: "run_ops 1 ?ops \<lparr>the_tablet = new_tablet 1, the_session = [],
            cur_val = replicate (nat 2) None, pending_val = replicate (nat 2) None,
            next_i = 0, saved_vals = [], expect_eq_failures = []\<rparr> = Inr st_end"
    by (auto simp: RunFuzzCase_def split: sum.splits)
  from read_your_writes[OF g] obtain st where r': "run_ops 1 ?ops \<lparr>the_tablet = new_tablet 1,
            the_session = [], cur_val = replicate (nat 2) None,
            pending_val = replicate (nat 2) None,
            next_i = 0, saved_vals = [], expect_eq_failures = []\<rparr> = Inr st"
    and p: "expect_eq_failures st = []"
      "\<forall>k. 0 \<le> k \<and> k < 2 \<longrightarrow> fst (GetRow k (the_tablet st)) = cur_val st ! nat k"
      "the_session st = [] \<longrightarrow> cur_val st = pending_val st"
      "[TestOp TEST_INSERT 0, TestOp TEST_FLUSH_OPS 0, TestOp TEST_UPDATE 0,
        TestOp TEST_FLUSH_TABLET 0, TestOp TEST_FLUSH_OPS 0] \<noteq> []
       \<and> op_type (last [TestOp TEST_INSERT 0, TestOp TEST_FLUSH_OPS 0, TestOp TEST_UPDATE 0,
        TestOp TEST_FLUSH_TABLET 0, TestOp TEST_FLUSH_OPS 0]) = TEST_FLUSH_OPS \<longrightarrow>
       the_session st = []
       \<and> (\<forall>k. 0 \<le> k \<and> k < 2 \<longrightarrow>
             fst (GetRow k (the_tablet st)) = pending_val st ! nat k)"
    by blast
  from r r' have eq: "st_end = st" by (simp only: sum.inject)
  from p(4) have s: "the_session st = []"
    and q: "\<forall>k. 0 \<le> k \<and> k < 2 \<longrightarrow> fst (GetRow k (the_tablet st)) = pending_val st ! nat k"
    by simp_all
  have g0: "fst (GetRow 0 (the_tablet st)) = cur_val st ! nat 0"
    and g1: "fst (GetRow 1 (the_tablet st)) = cur_val st ! nat 1"
    and g2: "fst (GetRow 0 (the_tablet st)) = pending_val st ! nat 0"
    using p(2)[rule_format, of 0] p(2)[rule_format, of 1] q[rule_format, of 0] by simp_all
  have cp: "cur_val st = pending_val st" using p(3) s by simp
  show ?thesis
    unfolding r' using p(1) s g0 g1 g2 cp c eq by (simp only: sum.case)
qed

section \<open>Verification of the order of scans\<close>

subsection \<open>Keyed snapshots\<close>

lemma keyed_from_iff:
  "keyed_from i saved
     = (\<forall>j<length saved. \<forall>r. saved ! j = Some r \<longrightarrow> key r = int (i + j))"
proof (induction saved arbitrary: i)
  case Nil
  then show ?case by simp
next
  case (Cons e saved)
  show ?case
    unfolding keyed_from.simps Cons.IH
    by (auto simp: All_less_Suc2 less_Suc_eq_0_disj split: option.splits)
qed

lemma keyed_snapshot_replicate: "keyed_snapshot (replicate len None)"
  by (simp add: keyed_snapshot_def keyed_from_iff)

lemma keyed_snapshot_update:
  assumes "keyed_snapshot saved" and "0 \<le> k"
    and "\<And>r. e = Some r \<Longrightarrow> key r = k"
  shows "keyed_snapshot (saved[nat k := e])"
proof -
  have "key r = int j" if "j < length saved" and "saved[nat k := e] ! j = Some r" for j r
  proof (cases "j = nat k")
    case True
    then have "e = Some r" using that by simp
    then show ?thesis using assms(2,3) True by simp
  next
    case False
    then have "saved ! j = Some r" using that by simp
    then show ?thesis using assms(1) that(1) by (simp add: keyed_snapshot_def keyed_from_iff)
  qed
  then show ?thesis by (simp add: keyed_snapshot_def keyed_from_iff)
qed

text \<open>The rows of a keyed snapshot are in strictly ascending order of their keys.\<close>

lemma keyed_from_sorted:
  "keyed_from i saved \<Longrightarrow>
   sorted_wrt (<) (map key (live_rows saved))
   \<and> (\<forall>r\<in>set (live_rows saved). int i \<le> key r)"
proof (induction saved arbitrary: i)
  case Nil
  then show ?case by (simp add: live_rows_simps)
next
  case (Cons e saved)
  from Cons.prems have k: "keyed_from (Suc i) saved" by simp
  note ih = Cons.IH[OF k]
  show ?case
  proof (cases e)
    case None
    then show ?thesis using ih by (auto simp: live_rows_simps)
  next
    case (Some r)
    then have "key r = int i" using Cons.prems by simp
    then show ?thesis using ih Some by (auto simp: live_rows_simps)
  qed
qed

lemma keyed_snapshot_sorted:
  "keyed_snapshot saved \<Longrightarrow> sorted_wrt (<) (map key (live_rows saved))"
  using keyed_from_sorted[of 0 saved] by (simp add: keyed_snapshot_def)

lemma set_map_assign_subset: "set (map_assign k v m) \<subseteq> insert (k, v) (set m)"
  by (induction m) (auto split: if_splits)

lemma keyed_map_assign:
  assumes "list_all keyed_snapshot (map snd m)" and "keyed_snapshot v"
  shows "list_all keyed_snapshot (map snd (map_assign k v m))"
  using assms set_map_assign_subset[of k v m]
  by (auto simp: list_all_iff)

subsection \<open>The run keeps the shadow model keyed\<close>

lemma expect_current_shadow:
  "cur_val (expect_current test_op st) = cur_val st"
  "pending_val (expect_current test_op st) = pending_val st"
  "saved_vals (expect_current test_op st) = saved_vals st"
  by (simp_all add: expect_current_def split: prod.splits)

lemma keyed_state_expect_current:
  "keyed_state (expect_current test_op st) = keyed_state st"
  by (simp add: keyed_state_def expect_current_shadow)

lemma InsertOrUpsertRow_key:
  "InsertOrUpsertRow k i old_row ty session = Inr (row, session') \<Longrightarrow> key row = k"
  by (auto simp: InsertOrUpsertRow_def Let_def split: TestOpType.splits if_splits)

lemma insert_or_upsert_keyed:
  assumes "keyed_state st" and "0 \<le> op_val test_op"
    and "run_insert_or_upsert test_op st = Inr st'"
  shows "keyed_state st'"
proof -
  from assms(3) obtain row session' where
    i: "InsertOrUpsertRow (op_val test_op) (next_i st) (pending_val st ! nat (op_val test_op))
          (op_type test_op) (the_session st) = Inr (row, session')"
    and st': "st' = st\<lparr>pending_val := (pending_val st)[nat (op_val test_op) := Some row],
                       the_session := session', next_i := next_i st + 1\<rparr>"
    by (auto simp: run_insert_or_upsert_def Let_def split: sum.splits)
  have "keyed_snapshot ((pending_val st)[nat (op_val test_op) := Some row])"
    using assms(1,2) InsertOrUpsertRow_key[OF i]
    by (intro keyed_snapshot_update) (auto simp: keyed_state_def)
  then show ?thesis using assms(1) unfolding st' by (simp add: keyed_state_def)
qed

lemma mutate_times_keyed:
  "keyed_state st \<Longrightarrow> 0 \<le> k \<Longrightarrow> keyed_state (mutate_times n k st)"
proof (induction n arbitrary: st)
  case 0
  then show ?case by simp
next
  case (Suc n)
  obtain row session' where m: "MutateRow k (next_i st) (the_session st) = (row, session')"
    by (cases "MutateRow k (next_i st) (the_session st)")
  then have kr: "key row = k" by (auto simp: MutateRow_def Let_def split: if_splits)
  have "keyed_snapshot ((pending_val st)[nat k := Some row])"
    using Suc.prems kr by (intro keyed_snapshot_update) (auto simp: keyed_state_def)
  then have "keyed_state (st\<lparr>pending_val := (pending_val st)[nat k := Some row],
                the_session := session', next_i := next_i st + 1\<rparr>)"
    using Suc.prems(1) by (simp add: keyed_state_def)
  from Suc.IH[OF this Suc.prems(2)] show ?case using m by simp
qed

lemma run_op_keyed:
  assumes inv: "keyed_state st" and r: "run_op update_multiplier test_op st = Inr st'"
  shows "keyed_state st'"
proof -
  let ?k = "op_val test_op" and ?st = "expect_current test_op st"
  have rng: "IsMutation (op_type test_op) \<Longrightarrow> 0 \<le> ?k"
    using r by (auto simp: run_op_def Let_def split: if_splits)
  have ec: "keyed_state ?st" using inv by (simp add: keyed_state_expect_current)
  have tab: "keyed_state (?st\<lparr>the_tablet := t\<rparr>)" for t
    using ec by (simp add: keyed_state_def)
  have body: "run_op update_multiplier test_op st
      = (case op_type test_op of
           TEST_INSERT \<Rightarrow> run_insert_or_upsert test_op ?st
         | TEST_INSERT_PK_ONLY \<Rightarrow> run_insert_or_upsert test_op ?st
         | TEST_UPSERT \<Rightarrow> run_insert_or_upsert test_op ?st
         | TEST_UPSERT_PK_ONLY \<Rightarrow> run_insert_or_upsert test_op ?st
         | TEST_UPDATE \<Rightarrow> Inr (mutate_times (nat update_multiplier) ?k ?st)
         | TEST_DELETE \<Rightarrow>
             (case DeleteRow ?k (the_session ?st) of
                (row, session') \<Rightarrow>
                  Inr (?st\<lparr>pending_val := (pending_val ?st)[nat ?k := row],
                          the_session := session'\<rparr>))
         | TEST_FLUSH_OPS \<Rightarrow>
             (case FlushSessionOrDie ?st of
                Inl f \<Rightarrow> Inl f
              | Inr st1 \<Rightarrow>
                  (let st2 = st1\<lparr>cur_val := pending_val st1\<rparr>;
                       current_time = clock (the_tablet st2)
                   in Inr (st2\<lparr>saved_vals :=
                                 map_assign current_time (cur_val st2) (saved_vals st2)\<rparr>)))
         | TEST_FLUSH_TABLET \<Rightarrow> Inr (?st\<lparr>the_tablet := FlushMRS (the_tablet ?st)\<rparr>)
         | TEST_FLUSH_DELTAS \<Rightarrow> Inr (?st\<lparr>the_tablet := FlushBiggestDMS (the_tablet ?st)\<rparr>)
         | TEST_MAJOR_COMPACT_DELTAS \<Rightarrow>
             Inr (?st\<lparr>the_tablet := CompactWorstDeltas MAJOR_DELTA_COMPACTION (the_tablet ?st)\<rparr>)
         | TEST_MINOR_COMPACT_DELTAS \<Rightarrow>
             Inr (?st\<lparr>the_tablet := CompactWorstDeltas MINOR_DELTA_COMPACTION (the_tablet ?st)\<rparr>)
         | TEST_COMPACT_TABLET \<Rightarrow> Inr (?st\<lparr>the_tablet := Compact (the_tablet ?st)\<rparr>)
         | TEST_RESTART_TS \<Rightarrow> Inr (?st\<lparr>the_tablet := Restart (the_tablet ?st)\<rparr>)
         | TEST_SCAN_AT_TIMESTAMP \<Rightarrow> CheckScanAtTimestamp ?k ?st)"
    using r by (auto simp: run_op_def Let_def split: if_splits)
  show ?thesis
  proof (cases "op_type test_op")
    case TEST_INSERT
    then show ?thesis using insert_or_upsert_keyed[OF ec, of test_op st'] rng r body by simp
  next
    case TEST_INSERT_PK_ONLY
    then show ?thesis using insert_or_upsert_keyed[OF ec, of test_op st'] rng r body by simp
  next
    case TEST_UPSERT
    then show ?thesis using insert_or_upsert_keyed[OF ec, of test_op st'] rng r body by simp
  next
    case TEST_UPSERT_PK_ONLY
    then show ?thesis using insert_or_upsert_keyed[OF ec, of test_op st'] rng r body by simp
  next
    case TEST_UPDATE
    then have "st' = mutate_times (nat update_multiplier) ?k ?st" using r body by simp
    then show ?thesis using mutate_times_keyed[OF ec, of ?k] rng TEST_UPDATE by simp
  next
    case TEST_DELETE
    then have st': "st' = ?st\<lparr>pending_val := (pending_val ?st)[nat ?k := None],
                 the_session := the_session ?st
                   @ [\<lparr>kind = KuduDelete, write_key = ?k, write_val = Unset\<rparr>]\<rparr>"
      using r body by (simp add: DeleteRow_def)
    have "keyed_snapshot ((pending_val ?st)[nat ?k := None])"
      using ec rng TEST_DELETE by (intro keyed_snapshot_update) (auto simp: keyed_state_def)
    then show ?thesis using ec unfolding st' by (simp add: keyed_state_def)
  next
    case TEST_FLUSH_OPS
    then obtain st1 where f: "FlushSessionOrDie ?st = Inr st1"
      and st': "st' = (st1\<lparr>cur_val := pending_val st1\<rparr>)
                 \<lparr>saved_vals := map_assign (clock (the_tablet st1)) (pending_val st1)
                                  (saved_vals st1)\<rparr>"
      using r body by (auto simp: Let_def split: sum.splits)
    from f have k1: "keyed_state st1"
      using ec by (auto simp: FlushSessionOrDie_def keyed_state_def split: prod.splits if_splits)
    then show ?thesis
      unfolding st'
      by (simp add: keyed_state_def keyed_map_assign descending_keys_map_assign)
  next
    case TEST_FLUSH_TABLET
    then show ?thesis using tab r body by auto
  next
    case TEST_FLUSH_DELTAS
    then show ?thesis using tab r body by auto
  next
    case TEST_MINOR_COMPACT_DELTAS
    then show ?thesis using tab r body by auto
  next
    case TEST_MAJOR_COMPACT_DELTAS
    then show ?thesis using tab r body by auto
  next
    case TEST_COMPACT_TABLET
    then show ?thesis using tab r body by auto
  next
    case TEST_RESTART_TS
    then show ?thesis using tab r body by auto
  next
    case TEST_SCAN_AT_TIMESTAMP
    then show ?thesis
      using tab r body
      by (auto simp: CheckScanAtTimestamp_def Let_def split: prod.splits if_splits)
  qed
qed

lemma run_ops_keyed:
  "keyed_state st \<Longrightarrow> run_ops update_multiplier test_ops st = Inr st' \<Longrightarrow> keyed_state st'"
proof (induction test_ops arbitrary: st)
  case Nil
  then show ?case by simp
next
  case (Cons test_op test_ops)
  from Cons.prems(2) obtain st1 where a: "run_op update_multiplier test_op st = Inr st1"
    and b: "run_ops update_multiplier test_ops st1 = Inr st'"
    by (auto split: sum.splits)
  from Cons.IH[OF run_op_keyed[OF Cons.prems(1) a] b] show ?case .
qed

lemma keyed_state_init:
  "keyed_state \<lparr>the_tablet = t, the_session = [],
       cur_val = replicate len None, pending_val = replicate len None,
       next_i = 0, saved_vals = [], expect_eq_failures = []\<rparr>"
  by (simp add: keyed_state_def keyed_snapshot_replicate descending_keys_empty)

text \<open>
  The comparison passes only on rows that are in strictly ascending order of their keys.
\<close>

lemma shadow_rows_at_sorted:
  assumes "list_all keyed_snapshot (map snd saved_values)"
  shows "sorted_wrt (<) (map key (shadow_rows_at saved_values T))"
proof (cases "recorded_before saved_values T = []")
  case True
  then show ?thesis by (simp add: shadow_rows_at_def)
next
  case False
  show ?thesis
  proof (cases "map_of saved_values (Max (set (recorded_before saved_values T)))")
    case None
    then show ?thesis using False by (simp add: shadow_rows_at_def)
  next
    case (Some saved)
    then have "(Max (set (recorded_before saved_values T)), saved) \<in> set saved_values"
      by (rule map_of_SomeD)
    then have "keyed_snapshot saved" using assms by (force simp: list_all_iff)
    then show ?thesis using Some False
      by (simp add: shadow_rows_at_def keyed_snapshot_sorted)
  qed
qed

lemma check_passes_sorted:
  assumes "keyed_state st"
    and "CheckRowsMatchAtTimestamp (saved_vals st) T rows_found [] = []"
  shows "sorted_wrt (<) (map key rows_found)"
proof -
  have d: "descending_keys (saved_vals st)"
    and k: "list_all keyed_snapshot (map snd (saved_vals st))"
    using assms(1) by (simp_all add: keyed_state_def)
  from assms(2) have "rows_found = shadow_rows_at (saved_vals st) T"
    using CheckRowsMatchAtTimestamp_empty_iff[OF d, of T rows_found "[]"] by simp
  then show ?thesis using shadow_rows_at_sorted[OF k] by simp
qed

subsection \<open>The rows of a scan\<close>

lemma scan_at_strictly_sorted:
  assumes "wf_tablet t"
  shows "sorted_wrt (<) (map fst (scan_at T t))"
proof -
  have "distinct (map fst (sort_key fst (all_visible T t)))"
    using distinct_all_visible[OF assms, of T]
    by (metis distinct_map distinct_sort set_sort)
  moreover have "sorted (map fst (sort_key fst (all_visible T t)))" by simp
  ultimately show ?thesis
    by (simp add: scan_at_all_visible strict_sorted_iff)
qed

lemma key_row_result: "map key (map (row_result t) rows) = map fst rows"
  by (simp add: row_result_def)

text \<open>
  Claim C8. A scan of a tablet that a history of batches, scans, flushes, compactions
  and restarts has left returns rows whose primary keys are strictly ascending, so no
  key has two rows; this holds for the ordered scan at any snapshot timestamp \<open>T\<close> and
  for a scan in \<open>latest\<close> mode. In a run of \<open>RunFuzzCase\<close> on a new tablet, in the state
  \<open>st\<close> reached after any prefix \<open>pre\<close> of the sequence, the rows that
  \<open>CheckScanAtTimestamp\<close> reads for the timestamp \<open>T\<close> are in that order; and
  \<open>CheckRowsMatchAtTimestamp\<close>, which walks the saved snapshot from index 0 upwards,
  leaves the error list empty only for found rows, whatever their origin, whose keys are
  strictly ascending and distinct.
\<close>

theorem ordered_scan_ascending:
  assumes "RunFuzzCase keyspace_size (new_tablet n) (pre @ post) update_multiplier = Inr st_end"
  shows "sorted_wrt (<) (map fst (scan_at T (tablet_after n' history)))
       \<and> distinct (map fst (scan_at T (tablet_after n' history)))
       \<and> sorted_wrt (<) (map fst (fst (open_latest_scan (tablet_after n' history))))
       \<and> (\<exists>st. run_ops update_multiplier pre
                 \<lparr>the_tablet = new_tablet n, the_session = [],
                  cur_val = replicate (nat keyspace_size) None,
                  pending_val = replicate (nat keyspace_size) None,
                  next_i = 0, saved_vals = [], expect_eq_failures = []\<rparr> = Inr st
            \<and> sorted_wrt (<)
                 (map key (map (row_result (snd (open_snapshot_scan T (the_tablet st))))
                               (fst (open_snapshot_scan T (the_tablet st)))))
            \<and> (CheckRowsMatchAtTimestamp (saved_vals st) T rows_found [] = [] \<longrightarrow>
                 sorted_wrt (<) (map key rows_found) \<and> distinct (map key rows_found)))"
proof -
  let ?init = "\<lparr>the_tablet = new_tablet n, the_session = [],
       cur_val = replicate (nat keyspace_size) None,
       pending_val = replicate (nat keyspace_size) None,
       next_i = 0, saved_vals = [], expect_eq_failures = []\<rparr>"
  let ?t = "tablet_after n' history"
  have w: "wf_tablet ?t" by (rule wf_tablet_after)
  have a: "sorted_wrt (<) (map fst (scan_at T ?t))"
    by (rule scan_at_strictly_sorted[OF w])
  then have b: "distinct (map fst (scan_at T ?t))" by (simp add: strict_sorted_iff)
  have c: "sorted_wrt (<) (map fst (fst (open_latest_scan ?t)))"
    using scan_at_strictly_sorted[OF wf_tablet_tick[OF w]] by (simp add: open_latest_scan_def)
  from assms have "run_ops update_multiplier (pre @ post) ?init = Inr st_end"
    by (auto simp: RunFuzzCase_def split: sum.splits)
  then obtain st where r: "run_ops update_multiplier pre ?init = Inr st"
    by (auto simp: run_ops_append split: sum.splits)
  from run_ops_agrees[OF shadow_agrees_init r]
  have wf: "wf_tablet (the_tablet st)" by (simp add: shadow_agrees_def Let_def)
  have k: "keyed_state st" by (rule run_ops_keyed[OF keyed_state_init r])
  have d: "sorted_wrt (<)
             (map key (map (row_result (snd (open_snapshot_scan T (the_tablet st))))
                           (fst (open_snapshot_scan T (the_tablet st)))))"
    unfolding key_row_result
    using scan_at_strictly_sorted[OF wf_tablet_tick[OF wf]]
    by (simp add: open_snapshot_scan_def)
  have e: "CheckRowsMatchAtTimestamp (saved_vals st) T rows_found [] = [] \<longrightarrow>
             sorted_wrt (<) (map key rows_found) \<and> distinct (map key rows_found)"
    using check_passes_sorted[OF k] by (auto simp: strict_sorted_iff)
  from r d e have "\<exists>st. run_ops update_multiplier pre ?init = Inr st
            \<and> sorted_wrt (<)
                 (map key (map (row_result (snd (open_snapshot_scan T (the_tablet st))))
                               (fst (open_snapshot_scan T (the_tablet st)))))
            \<and> (CheckRowsMatchAtTimestamp (saved_vals st) T rows_found [] = [] \<longrightarrow>
                 sorted_wrt (<) (map key rows_found) \<and> distinct (map key rows_found))"
    by blast
  with a b c show ?thesis by blast
qed

theorem ordered_scan_ascending_witness:
  "scan_at 5 (tablet_after 1
       [CommitBatch [\<lparr>kind = KuduInsert, write_key = 1, write_val = SetInt32 0\<rparr>,
                     \<lparr>kind = KuduInsert, write_key = 0, write_val = SetNull\<rparr>]])
     = [(0, [None]), (1, [Some 0])]
   \<and> sorted_wrt (<) (map fst (scan_at 5 (tablet_after 1
       [CommitBatch [\<lparr>kind = KuduInsert, write_key = 1, write_val = SetInt32 0\<rparr>,
                     \<lparr>kind = KuduInsert, write_key = 0, write_val = SetNull\<rparr>]])))
   \<and> (case run_ops 1 [TestOp TEST_INSERT 1, TestOp TEST_INSERT 0, TestOp TEST_FLUSH_OPS 0,
                      TestOp TEST_SCAN_AT_TIMESTAMP 4]
             \<lparr>the_tablet = new_tablet 1, the_session = [],
              cur_val = replicate (nat 2) None, pending_val = replicate (nat 2) None,
              next_i = 0, saved_vals = [], expect_eq_failures = []\<rparr> of
        Inl f \<Rightarrow> False
      | Inr st \<Rightarrow>
          saved_vals st
            = [(3, [Some \<lparr>key = 0, val = None\<rparr>, Some \<lparr>key = 1, val = Some 0\<rparr>])]
          \<and> CheckRowsMatchAtTimestamp (saved_vals st) 4
               [\<lparr>key = 0, val = None\<rparr>, \<lparr>key = 1, val = Some 0\<rparr>] [] = []
          \<and> sorted_wrt (<) (map key [\<lparr>key = 0, val = None\<rparr>, \<lparr>key = 1, val = Some 0\<rparr>])
          \<and> CheckRowsMatchAtTimestamp (saved_vals st) 4
               [\<lparr>key = 1, val = Some 0\<rparr>, \<lparr>key = 0, val = None\<rparr>] [] \<noteq> [])"
proof -
  let ?ops = "[TestOp TEST_INSERT 1, TestOp TEST_INSERT 0, TestOp TEST_FLUSH_OPS 0,
               TestOp TEST_SCAN_AT_TIMESTAMP 4]"
  let ?sv = "[(3, [Some \<lparr>key = 0, val = None\<rparr>, Some \<lparr>key = 1, val = Some (0 :: 32 word)\<rparr>])]"
  let ?rows = "[\<lparr>key = 0, val = None\<rparr>, \<lparr>key = 1, val = Some (0 :: 32 word)\<rparr>]"
  let ?h = "[CommitBatch [\<lparr>kind = KuduInsert, write_key = 1, write_val = SetInt32 0\<rparr>,
                          \<lparr>kind = KuduInsert, write_key = 0, write_val = SetNull\<rparr>]]"
  have "\<exists>st_end. RunFuzzCase 2 (new_tablet 1) (?ops @ []) 1 = Inr st_end
          \<and> saved_vals st_end = ?sv"
    by (simp add: engine_eval maintenance_eval CheckScanAtTimestamp_def open_snapshot_scan_def
        CheckRowsMatchAtTimestamp_def numeral_2_eq_2)
  then obtain st_end where g: "RunFuzzCase 2 (new_tablet 1) (?ops @ []) 1 = Inr st_end"
    and sv: "saved_vals st_end = ?sv" by blast
  from g have r: "run_ops 1 ?ops \<lparr>the_tablet = new_tablet 1, the_session = [],
            cur_val = replicate (nat 2) None, pending_val = replicate (nat 2) None,
            next_i = 0, saved_vals = [], expect_eq_failures = []\<rparr> = Inr st_end"
    by (auto simp: RunFuzzCase_def split: sum.splits)
  have s: "scan_at 5 (tablet_after 1 ?h) = [(0, [None]), (1, [Some 0])]"
    by (simp add: engine_eval maintenance_eval)
  have c1: "CheckRowsMatchAtTimestamp ?sv 4 ?rows [] = []"
    by (simp add: CheckRowsMatchAtTimestamp_def)
  have c2: "CheckRowsMatchAtTimestamp ?sv 4 (rev ?rows) [] \<noteq> []"
    by (simp add: CheckRowsMatchAtTimestamp_def Let_def)
  from ordered_scan_ascending[OF g, where T = 5 and n' = 1 and history = ?h]
  have p1: "sorted_wrt (<) (map fst (scan_at 5 (tablet_after 1 ?h)))" by blast
  from ordered_scan_ascending[OF g, where T = 4 and rows_found = ?rows] obtain st where
    r': "run_ops 1 ?ops \<lparr>the_tablet = new_tablet 1, the_session = [],
            cur_val = replicate (nat 2) None, pending_val = replicate (nat 2) None,
            next_i = 0, saved_vals = [], expect_eq_failures = []\<rparr> = Inr st"
    and p: "CheckRowsMatchAtTimestamp (saved_vals st) 4 ?rows [] = [] \<longrightarrow>
         sorted_wrt (<) (map key ?rows) \<and> distinct (map key ?rows)"
    by blast
  from r r' have eq: "st_end = st" by (simp only: sum.inject)
  have q: "sorted_wrt (<) (map key ?rows)" using p c1 sv eq by simp
  show ?thesis
    unfolding r' using s p1 q c1 c2 sv eq by (simp only: sum.case rev.simps append.simps) simp
qed

section \<open>Verification of the snapshot scans of a run\<close>

subsection \<open>A batch does not change what an earlier snapshot sees\<close>


















subsection \<open>A snapshot not earlier than the clock sees the current images\<close>





subsection \<open>The snapshot that a new entry of the saved values leaves for a timestamp\<close>





subsection \<open>Every operation of a run keeps the scans and the saved snapshots together\<close>


















subsection \<open>The snapshot scan and the rows recorded for its timestamp\<close>






end
